theory Spec2Isabelle
  imports Complex_Main "HOL-Library.AList"
begin

section \<open>Session model\<close>

text \<open>
  The session of \<^verbatim>\<open>GameManager\<close> (gameManager.ts) and the phase orchestration
  (gameFlow.ts, intentHandler.ts) as pure functions over an explicit \<open>Game\<close> value.
  A JavaScript \<^verbatim>\<open>Map\<close> is an association list in insertion order:
  \<^verbatim>\<open>get\<close> is \<open>map_of\<close>, \<^verbatim>\<open>set\<close> is \<open>AList.update\<close> (an existing key keeps its
  place, a new key goes to the end), \<^verbatim>\<open>delete\<close> is \<open>AList.delete\<close>.
  \<^verbatim>\<open>Date.now()\<close> and \<^verbatim>\<open>Math.random()\<close> are arguments of the operation that reads
  them. Calls into the messaging transport do not touch the \<open>Game\<close>; where the code
  branches on what the transport returned, that result is an argument as well.
\<close>

datatype GameState =
    IDLE | LOBBY_CREATED | WAITING_FOR_PLAYERS | ASSIGN_ROLES
  | ROUND_1_TASKS | ROUND_1_KILL | ROUND_1_DISCUSSION | ROUND_1_VOTING
  | ROUND_2_TASKS | ROUND_2_KILL | ROUND_2_DISCUSSION | ROUND_2_VOTING
  | ROUND_3_TASKS | ROUND_3_KILL | ROUND_3_DISCUSSION | ROUND_3_VOTING
  | GAME_END

datatype Role = IMPOSTOR | CREW

record Player =
  inboxId :: string
  username :: string
  role :: "Role option"
  isAlive :: bool
  completedTasks :: nat
  killAttempts :: nat
  lastKillAttempt :: "int option"
  voted :: bool
  voteTarget :: "string option"

record Task =
  question :: string
  completed :: bool

record Game =
  state :: GameState
  lobbyGroupId :: "string option"
  originalGroupId :: "string option"
  players :: "(string \<times> Player) list"
  round' :: int
  startTime :: "int option"
  joinDeadline :: "int option"
  currentPhaseDeadline :: "int option"
  impostorInboxId :: "string option"
  eliminatedPlayers :: "string set"
  killCooldown :: int
  killSuccessChance :: rat
  maxKillAttempts :: nat
  taskAssignments :: "(string \<times> Task) list"

record VoteResult =
  target :: string
  votes :: nat

datatype error = GameInProgress | CannotAssignRoles | InvalidRound | TypeError | TransportError

subsection \<open>Configuration\<close>

text \<open>
  Modelled from the spec: config/gameConfig.ts is not among the sources; the spec fixes
  \<^verbatim>\<open>MAX_PLAYERS = 6\<close> and \<^verbatim>\<open>MAX_ROUNDS = 3\<close>. The constants it leaves open
  are the fields of a \<open>Config\<close> that the operations reading them take as an argument.
\<close>

definition MAX_PLAYERS :: nat where
  "MAX_PLAYERS = 6"

definition MAX_ROUNDS :: int where
  "MAX_ROUNDS = 3"

record Config =
  MIN_PLAYERS_TO_START :: nat
  JOIN_WINDOW_DURATION_MS :: int
  KILL_COOLDOWN_MS :: int
  KILL_SUCCESS_CHANCE :: rat
  MAX_KILL_ATTEMPTS :: nat

subsection \<open>JavaScript values\<close>

text \<open>
  A nullable string or number used as a condition is false for \<^verbatim>\<open>null\<close>, for the
  empty string and for \<^verbatim>\<open>0\<close>.
\<close>

definition truthyStr :: "string option \<Rightarrow> bool" where
  "truthyStr s = (case s of None \<Rightarrow> False | Some x \<Rightarrow> x \<noteq> [])"

definition truthyNum :: "int option \<Rightarrow> bool" where
  "truthyNum n = (case n of None \<Rightarrow> False | Some x \<Rightarrow> x \<noteq> 0)"

text \<open>
  \<^verbatim>\<open>toLowerCase\<close> and \<^verbatim>\<open>trim\<close> on the ASCII range (identifiers and user names
  are bytes here).
\<close>

definition lowerChar :: "char \<Rightarrow> char" where
  "lowerChar c =
     (case map_of (zip ''ABCDEFGHIJKLMNOPQRSTUVWXYZ'' ''abcdefghijklmnopqrstuvwxyz'') c of
        None \<Rightarrow> c
      | Some l \<Rightarrow> l)"

definition toLowerCase :: "string \<Rightarrow> string" where
  "toLowerCase s = map lowerChar s"

definition isSpace :: "char \<Rightarrow> bool" where
  "isSpace c = (c \<in> set [CHR 0x09, CHR 0x0A, CHR 0x0B, CHR 0x0C, CHR 0x0D, CHR 0x20])"

definition trim :: "string \<Rightarrow> string" where
  "trim s = rev (dropWhile isSpace (rev (dropWhile isSpace s)))"

definition isHexDigit :: "char \<Rightarrow> bool" where
  "isHexDigit c = (c \<in> set ''0123456789abcdefABCDEF'')"

text \<open>The test \<^verbatim>\<open>/^0x[a-fA-F0-9]{40}$/\<close>.\<close>

definition isAddressShaped :: "string \<Rightarrow> bool" where
  "isAddressShaped s = (length s = 42 \<and> take 2 s = ''0x'' \<and> list_all isHexDigit (drop 2 s))"

subsection \<open>Arrays\<close>

text \<open>\<^verbatim>\<open>Array.prototype.find\<close>, returning the position of the object found.\<close>

fun findIndex :: "('a \<Rightarrow> bool) \<Rightarrow> 'a list \<Rightarrow> nat option" where
  "findIndex P [] = None"
| "findIndex P (x # xs) =
     (if P x then Some 0 else (case findIndex P xs of None \<Rightarrow> None | Some i \<Rightarrow> Some (Suc i)))"

text \<open>Assignment to fields of the object held at a position of the roster.\<close>

definition mutateAt :: "nat \<Rightarrow> (Player \<Rightarrow> Player) \<Rightarrow> (string \<times> Player) list \<Rightarrow> (string \<times> Player) list" where
  "mutateAt i f ps = (if i < length ps then ps[i := (fst (ps ! i), f (snd (ps ! i)))] else ps)"

section \<open>Game engine\<close>

definition initialGame :: "Config \<Rightarrow> Game" where
  "initialGame cfg =
     \<lparr> state = IDLE, lobbyGroupId = None, originalGroupId = None, players = [],
       round' = 0, startTime = None, joinDeadline = None, currentPhaseDeadline = None,
       impostorInboxId = None, eliminatedPlayers = {}, killCooldown = KILL_COOLDOWN_MS cfg,
       killSuccessChance = KILL_SUCCESS_CHANCE cfg, maxKillAttempts = MAX_KILL_ATTEMPTS cfg,
       taskAssignments = [] \<rparr>"

definition getPlayer :: "Game \<Rightarrow> string \<Rightarrow> Player option" where
  "getPlayer g k = map_of (players g) k"

definition getAlivePlayers :: "Game \<Rightarrow> Player list" where
  "getAlivePlayers g = filter isAlive (map snd (players g))"

text \<open>
  \<^verbatim>\<open>createLobby\<close>: \<open>newGroup\<close> is the id of the group the transport created;
  \<open>t1\<close> and \<open>t2\<close> are the two clock readings.
\<close>

definition createLobby :: "Config \<Rightarrow> Game \<Rightarrow> string \<Rightarrow> string \<Rightarrow> int \<Rightarrow> int \<Rightarrow> error + Game" where
  "createLobby cfg g origGroup newGroup t1 t2 =
     (if state g \<noteq> IDLE then Inl GameInProgress
      else Inr (g\<lparr> state := LOBBY_CREATED, lobbyGroupId := Some newGroup,
                   originalGroupId := Some origGroup, startTime := Some t1,
                   joinDeadline := Some (t2 + JOIN_WINDOW_DURATION_MS cfg) \<rparr>))"

text \<open>
  The eviction scan of \<^verbatim>\<open>addPlayer\<close>: \<^verbatim>\<open>for (i = length - 1; i >= 0; i--)\<close>, stopping
  at the first entry whose key is not the agent's; \<open>lastNonAgent agent arr n\<close> has
  indices \<open>n - 1, \<dots>, 0\<close> left to visit.
\<close>

fun lastNonAgent :: "string \<Rightarrow> (string \<times> Player) list \<Rightarrow> nat \<Rightarrow> (string \<times> Player) option" where
  "lastNonAgent agent arr 0 = None"
| "lastNonAgent agent arr (Suc i) =
     (if toLowerCase (fst (arr ! i)) \<noteq> toLowerCase agent then Some (arr ! i)
      else lastNonAgent agent arr i)"

definition newPlayer :: "string \<Rightarrow> string \<Rightarrow> Player" where
  "newPlayer k name =
     \<lparr> inboxId = k, username = name, role = None, isAlive = True, completedTasks = 0,
       killAttempts = 0, lastKillAttempt = None, voted = False, voteTarget = None \<rparr>"

record AddResult =
  success :: bool
  removedPlayer :: "Player option"

text \<open>
  \<^verbatim>\<open>addPlayer\<close>: the removal of the evicted member from the group is wrapped in
  \<^verbatim>\<open>try\<close>/\<^verbatim>\<open>catch\<close> and has no effect on the session. The final
  \<^verbatim>\<open>getConversationById\<close> and \<^verbatim>\<open>addMembers\<close>, made when a lobby group is set, are
  awaited with no guard after the roster and the state have been written: \<open>groupAdd\<close>
  says whether they return. When they reject, the call throws and the session stays as
  written.
\<close>

definition addPlayer ::
  "string \<Rightarrow> Game \<Rightarrow> string \<Rightarrow> string \<Rightarrow> int \<Rightarrow> bool \<Rightarrow> Game \<times> (error + AddResult)" where
  "addPlayer agent g k name now groupAdd =
     (if state g \<noteq> LOBBY_CREATED \<and> state g \<noteq> WAITING_FOR_PLAYERS
        then (g, Inr \<lparr> success = False, removedPlayer = None \<rparr>)
      else if map_of (players g) k \<noteq> None
        then (g, Inr \<lparr> success = False, removedPlayer = None \<rparr>)
      else if truthyNum (joinDeadline g) \<and> now > the (joinDeadline g)
        then (g, Inr \<lparr> success = False, removedPlayer = None \<rparr>)
      else
        let lastEntry =
              (if length (players g) \<ge> MAX_PLAYERS
               then lastNonAgent agent (players g) (length (players g)) else None);
            kept = (case lastEntry of None \<Rightarrow> players g
                    | Some e \<Rightarrow> AList.delete (fst e) (players g))
        in (g\<lparr> players := AList.update k (newPlayer k name) kept,
                state := WAITING_FOR_PLAYERS \<rparr>,
            if truthyStr (lobbyGroupId g) \<and> \<not> groupAdd then Inl TransportError
            else Inr \<lparr> success = True, removedPlayer = map_option snd lastEntry \<rparr>))"

definition canStartGame :: "Config \<Rightarrow> Game \<Rightarrow> int \<Rightarrow> bool" where
  "canStartGame cfg g now =
     (let deadlinePassed = (truthyNum (joinDeadline g) \<and> now > the (joinDeadline g));
          isFull = (length (players g) \<ge> 6)
      in state g = WAITING_FOR_PLAYERS \<and> (deadlinePassed \<or> isFull)
         \<and> length (players g) \<ge> MIN_PLAYERS_TO_START cfg)"

text \<open>
  \<^verbatim>\<open>assignRoles\<close>: \<open>rnd\<close> is the value of \<^verbatim>\<open>Math.random()\<close>. Reading the array out
  of range gives \<^verbatim>\<open>undefined\<close>, and the assignment to its \<^verbatim>\<open>role\<close> throws. The
  objects other than the one picked are compared with it by their \<^verbatim>\<open>inboxId\<close> field.
\<close>

definition assignRoles :: "Config \<Rightarrow> Game \<Rightarrow> int \<Rightarrow> rat \<Rightarrow> error + Game" where
  "assignRoles cfg g now rnd =
     (if state g \<noteq> WAITING_FOR_PLAYERS \<or> \<not> canStartGame cfg g now
        then Inl CannotAssignRoles
      else
        let impostorIndex = \<lfloor>rnd * of_nat (length (players g))\<rfloor>
        in if impostorIndex < 0 \<or> impostorIndex \<ge> int (length (players g)) then Inl TypeError
           else
             let i = nat impostorIndex;
                 ps1 = mutateAt i (\<lambda>p. p\<lparr> role := Some IMPOSTOR \<rparr>) (players g);
                 impostor = snd (ps1 ! i);
                 ps2 = map (\<lambda>(k, p). if inboxId p \<noteq> inboxId impostor
                                       then (k, p\<lparr> role := Some CREW \<rparr>) else (k, p)) ps1
             in Inr (g\<lparr> players := ps2, impostorInboxId := Some (inboxId impostor),
                         state := ASSIGN_ROLES \<rparr>))"

datatype Phase = TASKS | KILL | DISCUSSION | VOTING

definition getStateForRoundPhase :: "int \<Rightarrow> Phase \<Rightarrow> GameState" where
  "getStateForRoundPhase r ph =
     (if r = 1 then (case ph of TASKS \<Rightarrow> ROUND_1_TASKS | KILL \<Rightarrow> ROUND_1_KILL
                      | DISCUSSION \<Rightarrow> ROUND_1_DISCUSSION | VOTING \<Rightarrow> ROUND_1_VOTING)
      else if r = 2 then (case ph of TASKS \<Rightarrow> ROUND_2_TASKS | KILL \<Rightarrow> ROUND_2_KILL
                      | DISCUSSION \<Rightarrow> ROUND_2_DISCUSSION | VOTING \<Rightarrow> ROUND_2_VOTING)
      else if r = 3 then (case ph of TASKS \<Rightarrow> ROUND_3_TASKS | KILL \<Rightarrow> ROUND_3_KILL
                      | DISCUSSION \<Rightarrow> ROUND_3_DISCUSSION | VOTING \<Rightarrow> ROUND_3_VOTING)
      else IDLE)"

text \<open>
  \<^verbatim>\<open>startRound\<close>: \<open>gen\<close> stands for \<^verbatim>\<open>generateTask()\<close>, giving the task drawn for
  each player. The loop over the roster resets the living players one by one.
\<close>

definition resetForRound :: "Player \<Rightarrow> Player" where
  "resetForRound p =
     p\<lparr> killAttempts := 0, lastKillAttempt := None, voted := False, voteTarget := None \<rparr>"

fun assignTasks :: "(string \<Rightarrow> Task) \<Rightarrow> (string \<times> Player) list \<Rightarrow> (string \<times> Task) list \<Rightarrow> (string \<times> Task) list" where
  "assignTasks gen [] ta = ta"
| "assignTasks gen ((k, p) # ps) ta =
     (if isAlive p then assignTasks gen ps (AList.update (inboxId p) (gen (inboxId p)) ta)
      else assignTasks gen ps ta)"

definition startRound :: "(string \<Rightarrow> Task) \<Rightarrow> Game \<Rightarrow> int \<Rightarrow> error + Game" where
  "startRound gen g r =
     (if r < 1 \<or> r > MAX_ROUNDS then Inl InvalidRound
      else Inr (g\<lparr> round' := r, state := getStateForRoundPhase r TASKS,
                   players := map (\<lambda>(k, p). if isAlive p then (k, resetForRound p) else (k, p))
                                  (players g),
                   taskAssignments := assignTasks gen (players g) (taskAssignments g) \<rparr>))"

definition isTaskPhase :: "GameState \<Rightarrow> bool" where
  "isTaskPhase s = (s = ROUND_1_TASKS \<or> s = ROUND_2_TASKS \<or> s = ROUND_3_TASKS)"

definition isKillPhase :: "GameState \<Rightarrow> bool" where
  "isKillPhase s = (s = ROUND_1_KILL \<or> s = ROUND_2_KILL \<or> s = ROUND_3_KILL)"

definition isVotingPhase :: "GameState \<Rightarrow> bool" where
  "isVotingPhase s = (s = ROUND_1_VOTING \<or> s = ROUND_2_VOTING \<or> s = ROUND_3_VOTING)"

text \<open>\<^verbatim>\<open>completeTask\<close>: \<open>validate\<close> stands for \<^verbatim>\<open>validateTaskAnswer\<close>.\<close>

definition completeTask :: "(Task \<Rightarrow> string \<Rightarrow> bool) \<Rightarrow> Game \<Rightarrow> string \<Rightarrow> string \<Rightarrow> Game \<times> bool" where
  "completeTask validate g k answer =
     (case map_of (players g) k of
        None \<Rightarrow> (g, False)
      | Some player \<Rightarrow>
          if \<not> isAlive player then (g, False)
          else if role player = Some IMPOSTOR then (g, False)
          else if \<not> isTaskPhase (state g) then (g, False)
          else (case map_of (taskAssignments g) k of
                  None \<Rightarrow> (g, False)
                | Some task \<Rightarrow>
                    if completed task then (g, False)
                    else if validate task (trim answer)
                      then (g\<lparr> taskAssignments :=
                                 AList.map_entry k (\<lambda>t. t\<lparr> completed := True \<rparr>) (taskAssignments g),
                               players :=
                                 AList.map_entry k (\<lambda>p. p\<lparr> completedTasks := completedTasks p + 1 \<rparr>)
                                   (players g) \<rparr>, True)
                    else (g, False)))"

text \<open>
  \<^verbatim>\<open>attemptKill\<close>: \<open>rnd\<close> is the value of \<^verbatim>\<open>Math.random()\<close>; \<open>members\<close> is what
  \<^verbatim>\<open>group.members()\<close> gave for the lobby, each member as its first account identifier
  (when it has one) and its inbox id, or \<open>None\<close> when the conversation is missing or the
  call throws (the code catches that and goes on). The target is the object found in the
  roster, kept here as its position.
\<close>

datatype KillMessage =
    OnlyMafia | NotKillPhase | NotFound string | CannotKillSelf | OnCooldown int
  | MaxAttemptsReached | KillSuccess string | KillFailed int

record KillResult =
  killed :: bool
  message :: KillMessage

definition resolveByAddress :: "Game \<Rightarrow> string \<Rightarrow> (string option \<times> string) list option \<Rightarrow> nat option" where
  "resolveByAddress g targetIdentifier members =
     (if \<not> isAddressShaped (trim targetIdentifier) then None
      else if \<not> truthyStr (lobbyGroupId g) then None
      else (case members of
              None \<Rightarrow> None
            | Some ms \<Rightarrow>
                (case List.find (\<lambda>m. map_option toLowerCase (fst m)
                                        = Some (toLowerCase (trim targetIdentifier))) ms of
                   None \<Rightarrow> None
                 | Some targetMember \<Rightarrow>
                     findIndex (\<lambda>e. toLowerCase (inboxId (snd e)) = toLowerCase (snd targetMember)
                                       \<and> isAlive (snd e)) (players g))))"

definition resolveTarget :: "Game \<Rightarrow> string \<Rightarrow> (string option \<times> string) list option \<Rightarrow> nat option" where
  "resolveTarget g targetIdentifier members =
     (case resolveByAddress g targetIdentifier members of
        Some i \<Rightarrow> Some i
      | None \<Rightarrow> findIndex (\<lambda>e. toLowerCase (username (snd e)) = toLowerCase targetIdentifier
                                 \<and> isAlive (snd e)) (players g))"

definition attemptKill ::
  "Game \<Rightarrow> string \<Rightarrow> string \<Rightarrow> int \<Rightarrow> rat \<Rightarrow> (string option \<times> string) list option
     \<Rightarrow> Game \<times> KillResult" where
  "attemptKill g impostorId targetIdentifier now rnd members =
     (case map_of (players g) impostorId of
        None \<Rightarrow> (g, \<lparr> killed = False, message = OnlyMafia \<rparr>)
      | Some impostor \<Rightarrow>
          if \<not> isAlive impostor \<or> role impostor \<noteq> Some IMPOSTOR
            then (g, \<lparr> killed = False, message = OnlyMafia \<rparr>)
          else if \<not> isKillPhase (state g)
            then (g, \<lparr> killed = False, message = NotKillPhase \<rparr>)
          else (case resolveTarget g targetIdentifier members of
                  None \<Rightarrow> (g, \<lparr> killed = False, message = NotFound targetIdentifier \<rparr>)
                | Some ti \<Rightarrow>
                    let target = snd (players g ! ti) in
                    if inboxId target = impostorId
                      then (g, \<lparr> killed = False, message = CannotKillSelf \<rparr>)
                    else if truthyNum (lastKillAttempt impostor)
                            \<and> now - the (lastKillAttempt impostor) < killCooldown g
                      then (g, \<lparr> killed = False,
                               message = OnCooldown
                                 \<lceil>(of_int (killCooldown g - (now - the (lastKillAttempt impostor))) :: rat)
                                    / 1000\<rceil> \<rparr>)
                    else if killAttempts impostor \<ge> maxKillAttempts g
                      then (g, \<lparr> killed = False, message = MaxAttemptsReached \<rparr>)
                    else
                      let ps1 = AList.map_entry impostorId
                                  (\<lambda>p. p\<lparr> killAttempts := killAttempts p + 1,
                                          lastKillAttempt := Some now \<rparr>) (players g);
                          g1 = g\<lparr> players := ps1 \<rparr>
                      in if rnd < killSuccessChance g
                         then (g1\<lparr> players := mutateAt ti (\<lambda>p. p\<lparr> isAlive := False \<rparr>) ps1,
                                   eliminatedPlayers :=
                                     insert (inboxId target) (eliminatedPlayers g) \<rparr>,
                               \<lparr> killed = True, message = KillSuccess (username target) \<rparr>)
                         else (g1, \<lparr> killed = False,
                                    message = KillFailed
                                      (int (maxKillAttempts g) - int (killAttempts impostor + 1)) \<rparr>)))"

definition castVote :: "Game \<Rightarrow> string \<Rightarrow> string \<Rightarrow> Game \<times> bool" where
  "castVote g voterId targetUsername =
     (case map_of (players g) voterId of
        None \<Rightarrow> (g, False)
      | Some voter \<Rightarrow>
          if \<not> isAlive voter then (g, False)
          else if \<not> isVotingPhase (state g) then (g, False)
          else if voted voter then (g, False)
          else (case List.find (\<lambda>p. toLowerCase (username p) = toLowerCase targetUsername)
                            (map snd (players g)) of
                  None \<Rightarrow> (g, False)
                | Some tgt \<Rightarrow>
                    (g\<lparr> players := AList.map_entry voterId
                          (\<lambda>p. p\<lparr> voted := True, voteTarget := Some (inboxId tgt) \<rparr>) (players g) \<rparr>,
                     True)))"

text \<open>
  \<^verbatim>\<open>getVoteResults\<close>: the loop over the roster fills \<^verbatim>\<open>voteCounts\<close>, a map in
  insertion order; \<^verbatim>\<open>sort\<close> with the comparator \<^verbatim>\<open>b.votes - a.votes\<close> is stable,
  as \<open>sort_key\<close> is.
\<close>

fun countVotes :: "(string \<times> Player) list \<Rightarrow> (string \<times> nat) list \<Rightarrow> (string \<times> nat) list" where
  "countVotes [] voteCounts = voteCounts"
| "countVotes ((k, player) # ps) voteCounts =
     (if isAlive player \<and> voted player \<and> truthyStr (voteTarget player)
      then let t = the (voteTarget player);
               count = (case map_of voteCounts t of None \<Rightarrow> 0 | Some c \<Rightarrow> c)
           in countVotes ps (AList.update t (count + 1) voteCounts)
      else countVotes ps voteCounts)"

definition getVoteResults :: "Game \<Rightarrow> VoteResult list" where
  "getVoteResults g =
     sort_key (\<lambda>r. - int (votes r))
       (map (\<lambda>(t, v). \<lparr> target = t, votes = v \<rparr>) (countVotes (players g) []))"

definition eliminatePlayer :: "Game \<Rightarrow> string \<Rightarrow> Game" where
  "eliminatePlayer g k =
     (case map_of (players g) k of
        None \<Rightarrow> g
      | Some player \<Rightarrow>
          g\<lparr> players := AList.map_entry k (\<lambda>p. p\<lparr> isAlive := False \<rparr>) (players g),
             eliminatedPlayers := insert k (eliminatedPlayers g) \<rparr>)"

record WinCheck =
  gameEnded :: bool
  winner :: "Role option"

definition checkWinCondition :: "Game \<Rightarrow> WinCheck" where
  "checkWinCondition g =
     (let impostor = map_of (players g)
                       (if truthyStr (impostorInboxId g) then the (impostorInboxId g) else [])
      in case impostor of
           None \<Rightarrow> \<lparr> gameEnded = True, winner = Some CREW \<rparr>
         | Some imp \<Rightarrow>
             if \<not> isAlive imp then \<lparr> gameEnded = True, winner = Some CREW \<rparr>
             else if round' g = MAX_ROUNDS
                     \<and> (state g = ROUND_3_VOTING \<or> state g = GAME_END) \<and> isAlive imp
               then \<lparr> gameEnded = True, winner = Some IMPOSTOR \<rparr>
             else \<lparr> gameEnded = False, winner = None \<rparr>)"

definition advancePhase :: "(string \<Rightarrow> Task) \<Rightarrow> Game \<Rightarrow> error + Game" where
  "advancePhase gen g =
     (case state g of
        ROUND_1_TASKS \<Rightarrow> Inr (g\<lparr> state := ROUND_1_KILL \<rparr>)
      | ROUND_2_TASKS \<Rightarrow> Inr (g\<lparr> state := ROUND_2_KILL \<rparr>)
      | ROUND_3_TASKS \<Rightarrow> Inr (g\<lparr> state := ROUND_3_KILL \<rparr>)
      | ROUND_1_KILL \<Rightarrow> Inr (g\<lparr> state := ROUND_1_DISCUSSION \<rparr>)
      | ROUND_2_KILL \<Rightarrow> Inr (g\<lparr> state := ROUND_2_DISCUSSION \<rparr>)
      | ROUND_3_KILL \<Rightarrow> Inr (g\<lparr> state := ROUND_3_DISCUSSION \<rparr>)
      | ROUND_1_DISCUSSION \<Rightarrow> Inr (g\<lparr> state := ROUND_1_VOTING \<rparr>)
      | ROUND_2_DISCUSSION \<Rightarrow> Inr (g\<lparr> state := ROUND_2_VOTING \<rparr>)
      | ROUND_3_DISCUSSION \<Rightarrow> Inr (g\<lparr> state := ROUND_3_VOTING \<rparr>)
      | ROUND_1_VOTING \<Rightarrow> startRound gen g 2
      | ROUND_2_VOTING \<Rightarrow> startRound gen g 3
      | ROUND_3_VOTING \<Rightarrow> Inr (g\<lparr> state := GAME_END \<rparr>)
      | _ \<Rightarrow> Inr g)"

definition cleanup :: "Config \<Rightarrow> Game \<Rightarrow> Game" where
  "cleanup cfg g = initialGame cfg"

section \<open>Round orchestration\<close>

text \<open>
  The functions of gameFlow.ts and the vote branch of \<^verbatim>\<open>handleIntentMessage\<close>, as far
  as they read or change the \<open>Game\<close>. Messages sent and timers set are left out.
  \<open>groupFound\<close> says whether \<^verbatim>\<open>getConversationById\<close> returned the lobby
  conversation.
\<close>

datatype IntentReply =
    VotingOnlyInGroup | TargetNotFound | NotInGameOrEliminated | NotVotingPhase
  | VoteChanged string | VoteCast string

text \<open>
  The branch \<^verbatim>\<open>actionId.startsWith("vote-")\<close> of \<^verbatim>\<open>handleIntentMessage\<close>:
  \<open>actionId\<close> starts with that prefix, so removing its first occurrence drops five
  characters; \<open>isDM\<close> is the test on the conversation the click came from. The reply
  is sent before the vote is stored, and the send is taken to return.
\<close>

definition handleVoteIntent :: "Game \<Rightarrow> string \<Rightarrow> string \<Rightarrow> bool \<Rightarrow> Game \<times> IntentReply" where
  "handleVoteIntent g senderInboxId actionId isDM =
     (if isDM then (g, VotingOnlyInGroup)
      else
        let targetInboxId = drop 5 actionId in
        case getPlayer g targetInboxId of
          None \<Rightarrow> (g, TargetNotFound)
        | Some targetPlayer \<Rightarrow>
            (case getPlayer g senderInboxId of
               None \<Rightarrow> (g, NotInGameOrEliminated)
             | Some voter \<Rightarrow>
                 if \<not> isAlive voter then (g, NotInGameOrEliminated)
                 else if \<not> isVotingPhase (state g) then (g, NotVotingPhase)
                 else (g\<lparr> players := AList.map_entry senderInboxId
                             (\<lambda>p. p\<lparr> voted := True, voteTarget := Some targetInboxId \<rparr>)
                             (players g) \<rparr>,
                       if voted voter then VoteChanged (username targetPlayer)
                       else VoteCast (username targetPlayer))))"

definition lobbyAvailable :: "Game \<Rightarrow> bool \<Rightarrow> bool" where
  "lobbyAvailable g groupFound = (truthyStr (lobbyGroupId g) \<and> groupFound)"

text \<open>\<^verbatim>\<open>startVotingPhase\<close>: the votes of the living players are cleared.\<close>

definition startVotingPhase :: "bool \<Rightarrow> Game \<Rightarrow> Game" where
  "startVotingPhase groupFound g =
     (if \<not> lobbyAvailable g groupFound then g
      else g\<lparr> players := map (\<lambda>(k, p). if isAlive p
                                         then (k, p\<lparr> voted := False, voteTarget := None \<rparr>)
                                         else (k, p)) (players g) \<rparr>)"

definition endGame :: "Config \<Rightarrow> bool \<Rightarrow> Role option \<Rightarrow> Game \<Rightarrow> Game" where
  "endGame cfg groupFound w g =
     (case w of
        None \<Rightarrow> g
      | Some _ \<Rightarrow> if \<not> lobbyAvailable g groupFound then g else cleanup cfg g)"

text \<open>\<^verbatim>\<open>Math.ceil(aliveCount / 2)\<close>.\<close>

definition majority :: "nat \<Rightarrow> int" where
  "majority aliveCount = \<lceil>(of_nat aliveCount :: rat) / 2\<rceil>"

text \<open>The end of \<^verbatim>\<open>processVoting\<close>: the next round, or the end of the game.\<close>

definition nextRoundOrEnd :: "Config \<Rightarrow> (string \<Rightarrow> Task) \<Rightarrow> bool \<Rightarrow> int \<Rightarrow> Game \<Rightarrow> error + Game" where
  "nextRoundOrEnd cfg gen groupFound r g =
     (if r < MAX_ROUNDS
      then (case advancePhase gen g of
              Inl e \<Rightarrow> Inl e
            | Inr g1 \<Rightarrow> startRound gen g1 (r + 1))
      else Inr (endGame cfg groupFound
                  (case winner (checkWinCondition g) of None \<Rightarrow> Some IMPOSTOR | Some w \<Rightarrow> Some w)
                  g))"

text \<open>
  \<^verbatim>\<open>processVoting\<close>: the tally, the elimination and what follows. The result is the
  message about the tally that is sent to the group, and the session it leaves (or the
  error thrown by \<^verbatim>\<open>startRound\<close>). Every send is taken to return.
\<close>

datatype TallyMessage = NoTallyMessage | NoVotesCast | TieOrNoMajority | WasEliminated string bool

definition processVoting ::
  "Config \<Rightarrow> (string \<Rightarrow> Task) \<Rightarrow> bool \<Rightarrow> int \<Rightarrow> Game \<Rightarrow> TallyMessage \<times> (error + Game)" where
  "processVoting cfg gen groupFound r g =
     (if \<not> lobbyAvailable g groupFound then (NoTallyMessage, Inr g)
      else case getVoteResults g of
             [] \<Rightarrow> (NoVotesCast, nextRoundOrEnd cfg gen groupFound r g)
           | topResult # _ \<Rightarrow>
               if int (votes topResult) \<ge> majority (length (getAlivePlayers g))
               then (case getPlayer g (target topResult) of
                       None \<Rightarrow> (NoTallyMessage, nextRoundOrEnd cfg gen groupFound r g)
                     | Some eliminated \<Rightarrow>
                         let g1 = eliminatePlayer g (target topResult);
                             msg = WasEliminated (username eliminated)
                                     (role eliminated = Some IMPOSTOR);
                             winCheck = checkWinCondition g1
                         in if gameEnded winCheck
                            then (msg, Inr (endGame cfg groupFound (winner winCheck) g1))
                            else (msg, nextRoundOrEnd cfg gen groupFound r g1))
               else (TieOrNoMajority, nextRoundOrEnd cfg gen groupFound r g))"

subsection \<open>Phase timeouts\<close>

text \<open>
  The callbacks given to \<^verbatim>\<open>setPhaseTimer\<close> by \<^verbatim>\<open>startTaskPhase\<close>,
  \<^verbatim>\<open>startKillPhase\<close>, \<^verbatim>\<open>startDiscussionPhase\<close> and \<^verbatim>\<open>startVotingPhase\<close>.
  After \<^verbatim>\<open>advancePhase\<close>, the task and kill callbacks start the next phase, which only
  sends messages and sets the next timer. A callback returns nothing: it is the session
  it leaves.
\<close>

definition taskPhaseTimeout :: "(string \<Rightarrow> Task) \<Rightarrow> Game \<Rightarrow> error + Game" where
  "taskPhaseTimeout gen g = advancePhase gen g"

definition killPhaseTimeout :: "(string \<Rightarrow> Task) \<Rightarrow> Game \<Rightarrow> error + Game" where
  "killPhaseTimeout gen g = (if isKillPhase (state g) then advancePhase gen g else Inr g)"

definition discussionTimeout :: "(string \<Rightarrow> Task) \<Rightarrow> bool \<Rightarrow> Game \<Rightarrow> error + Game" where
  "discussionTimeout gen groupFound g =
     (case advancePhase gen g of
        Inl e \<Rightarrow> Inl e
      | Inr g1 \<Rightarrow> Inr (startVotingPhase groupFound g1))"

definition votingTimeout :: "Config \<Rightarrow> (string \<Rightarrow> Task) \<Rightarrow> bool \<Rightarrow> int \<Rightarrow> Game \<Rightarrow> error + Game" where
  "votingTimeout cfg gen groupFound r g = snd (processVoting cfg gen groupFound r g)"

section \<open>Operations\<close>

text \<open>
  Every place where the sources write to the \<open>Game\<close> or to a \<open>Player\<close>: the
  mutating methods of \<^verbatim>\<open>GameManager\<close>, the vote branch of the intent handler and the
  vote reset of \<^verbatim>\<open>startVotingPhase\<close>. Every other function of the sources changes the
  session only by calling these. \<open>perform\<close> gives the session an operation leaves, also
  when \<^verbatim>\<open>addPlayer\<close> throws after writing; an operation that throws before it writes
  leaves none.
\<close>

datatype Operation =
    CreateLobby string string int int
  | AddPlayer string string string int bool
  | AssignRoles int rat
  | StartRound int
  | CompleteTask string string
  | AttemptKill string string int rat "(string option \<times> string) list option"
  | CastVote string string
  | EliminatePlayer string
  | AdvancePhase
  | Cleanup
  | VoteIntent string string bool
  | StartVotingPhase bool

record Collaborators =
  generateTask :: "string \<Rightarrow> Task"
  validateTaskAnswer :: "Task \<Rightarrow> string \<Rightarrow> bool"

fun perform :: "Config \<Rightarrow> Collaborators \<Rightarrow> Operation \<Rightarrow> Game \<Rightarrow> error + Game" where
  "perform cfg env (CreateLobby origGroup newGroup t1 t2) g = createLobby cfg g origGroup newGroup t1 t2"
| "perform cfg env (AddPlayer agent k name now groupAdd) g = Inr (fst (addPlayer agent g k name now groupAdd))"
| "perform cfg env (AssignRoles now rnd) g = assignRoles cfg g now rnd"
| "perform cfg env (StartRound r) g = startRound (generateTask env) g r"
| "perform cfg env (CompleteTask k answer) g = Inr (fst (completeTask (validateTaskAnswer env) g k answer))"
| "perform cfg env (AttemptKill k tgt now rnd members) g = Inr (fst (attemptKill g k tgt now rnd members))"
| "perform cfg env (CastVote k tgt) g = Inr (fst (castVote g k tgt))"
| "perform cfg env (EliminatePlayer k) g = Inr (eliminatePlayer g k)"
| "perform cfg env AdvancePhase g = advancePhase (generateTask env) g"
| "perform cfg env Cleanup g = Inr (cleanup cfg g)"
| "perform cfg env (VoteIntent k actionId isDM) g = Inr (fst (handleVoteIntent g k actionId isDM))"
| "perform cfg env (StartVotingPhase groupFound) g = Inr (startVotingPhase groupFound g)"

text \<open>The operations that run \<^verbatim>\<open>startRound\<close>.\<close>

definition runsStartRound :: "Operation \<Rightarrow> Game \<Rightarrow> bool" where
  "runsStartRound op g =
     (case op of
        StartRound r \<Rightarrow> True
      | AdvancePhase \<Rightarrow> state g = ROUND_1_VOTING \<or> state g = ROUND_2_VOTING
      | _ \<Rightarrow> False)"

text \<open>
  What a JavaScript \<^verbatim>\<open>Map\<close> filled by \<^verbatim>\<open>addPlayer\<close> guarantees: keys are
  distinct, and each player is stored under its own \<^verbatim>\<open>inboxId\<close>.
\<close>

definition wellFormedRoster :: "(string \<times> Player) list \<Rightarrow> bool" where
  "wellFormedRoster ps = (distinct (map fst ps) \<and> list_all (\<lambda>e. inboxId (snd e) = fst e) ps)"

text \<open>
  What the two ways of voting guarantee: a recorded vote names a roster entry, and before
  the first round (when the roster can still lose an entry) no vote is recorded.
\<close>

definition votesInRoster :: "Game \<Rightarrow> bool" where
  "votesInRoster g =
     list_all (\<lambda>e. case voteTarget (snd e) of None \<Rightarrow> True
                     | Some t \<Rightarrow> map_of (players g) t \<noteq> None) (players g)"

definition noVotes :: "(string \<times> Player) list \<Rightarrow> bool" where
  "noVotes ps = list_all (\<lambda>e. voteTarget (snd e) = None) ps"

definition inLobby :: "GameState \<Rightarrow> bool" where
  "inLobby s = (s = IDLE \<or> s = LOBBY_CREATED \<or> s = WAITING_FOR_PLAYERS)"

definition sessionInvariant :: "Game \<Rightarrow> bool" where
  "sessionInvariant g =
     (wellFormedRoster (players g) \<and> votesInRoster g
      \<and> (inLobby (state g) \<longrightarrow> noVotes (players g)))"

section \<open>The vote count of the specification\<close>

text \<open>
  The spec's words for the tally: the votes for a target "among living voters who have
  voted". It is compared below with what \<open>getVoteResults\<close> computes.
\<close>

definition spec_voteCount :: "(string \<times> Player) list \<Rightarrow> string \<Rightarrow> nat" where
  "spec_voteCount ps t =
     length (filter (\<lambda>e. isAlive (snd e) \<and> voted (snd e) \<and> voteTarget (snd e) = Some t) ps)"

section \<open>Example sessions\<close>

text \<open>Concrete sessions on which the theorems below are instantiated.\<close>

definition demoConfig :: Config where
  "demoConfig = \<lparr> MIN_PLAYERS_TO_START = 4, JOIN_WINDOW_DURATION_MS = 120000,
                  KILL_COOLDOWN_MS = 15000, KILL_SUCCESS_CHANCE = 1 / 2,
                  MAX_KILL_ATTEMPTS = 3 \<rparr>"

definition crewOf :: "string \<Rightarrow> string \<Rightarrow> string \<times> Player" where
  "crewOf k name = (k, (newPlayer k name)\<lparr> role := Some CREW \<rparr>)"

definition mafiaOf :: "string \<Rightarrow> string \<Rightarrow> string \<times> Player" where
  "mafiaOf k name = (k, (newPlayer k name)\<lparr> role := Some IMPOSTOR \<rparr>)"

definition demoGame :: "GameState \<Rightarrow> int \<Rightarrow> Game" where
  "demoGame s r =
     (initialGame demoConfig)
       \<lparr> state := s, lobbyGroupId := Some ''lobby'', originalGroupId := Some ''main'',
         players := [mafiaOf ''i1'' ''mallory'', crewOf ''i2'' ''alice'',
                     crewOf ''i3'' ''bob'', crewOf ''i4'' ''carol''],
         round' := r, startTime := Some 1000, joinDeadline := Some 121000,
         impostorInboxId := Some ''i1'' \<rparr>"

definition demoTasks :: "string \<Rightarrow> Task" where
  "demoTasks k = \<lparr> question = ''2 + 2'', completed = False \<rparr>"

text \<open>The adversary has made one attempt, at time 5000.\<close>

definition demoMafia :: Player where
  "demoMafia = (newPlayer ''i1'' ''mallory'')\<lparr> role := Some IMPOSTOR, killAttempts := 1,
                                              lastKillAttempt := Some 5000 \<rparr>"

definition demoKillGame :: Game where
  "demoKillGame =
     (demoGame ROUND_1_KILL 1)
       \<lparr> players := [(''i1'', demoMafia), crewOf ''i2'' ''alice'', crewOf ''i3'' ''bob'',
                     crewOf ''i4'' ''carol''] \<rparr>"

text \<open>Round 2's vote after bob was eliminated; round 1's vote after alice voted for bob.\<close>

definition demoVoteGame :: Game where
  "demoVoteGame = eliminatePlayer (demoGame ROUND_2_VOTING 2) ''i3''"

definition demoVotedGame :: Game where
  "demoVotedGame = fst (castVote (demoGame ROUND_1_VOTING 1) ''i2'' ''bob'')"

text \<open>A full lobby in which the hosting agent was the last to be added, and a lobby of four.\<close>

definition demoLobby :: Game where
  "demoLobby =
     (initialGame demoConfig)
       \<lparr> state := WAITING_FOR_PLAYERS, lobbyGroupId := Some ''lobby'',
         originalGroupId := Some ''main'',
         players := [(''i1'', newPlayer ''i1'' ''mallory''), (''i2'', newPlayer ''i2'' ''alice''),
                     (''i3'', newPlayer ''i3'' ''bob''), (''i4'', newPlayer ''i4'' ''carol''),
                     (''i5'', newPlayer ''i5'' ''dave''), (''AGENT'', newPlayer ''AGENT'' ''host'')],
         startTime := Some 1000, joinDeadline := Some 121000 \<rparr>"

definition demoFullLobby :: Game where
  "demoFullLobby =
     (initialGame demoConfig)
       \<lparr> state := WAITING_FOR_PLAYERS, lobbyGroupId := Some ''lobby'',
         originalGroupId := Some ''main'',
         players := [(''i1'', newPlayer ''i1'' ''mallory''), (''i2'', newPlayer ''i2'' ''alice''),
                     (''i3'', newPlayer ''i3'' ''bob''), (''i4'', newPlayer ''i4'' ''carol'')],
         startTime := Some 1000, joinDeadline := Some 121000 \<rparr>"

text \<open>The adversary has used all three attempts of the round.\<close>

definition demoEnv :: Collaborators where
  "demoEnv = \<lparr> generateTask = demoTasks, validateTaskAnswer = (\<lambda>t a. a = ''4'') \<rparr>"

definition demoCapped :: Player where
  "demoCapped = (newPlayer ''i1'' ''mallory'')\<lparr> role := Some IMPOSTOR, killAttempts := 3,
                                               lastKillAttempt := Some 5000 \<rparr>"

definition demoCapGame :: Game where
  "demoCapGame =
     (demoGame ROUND_1_KILL 1)
       \<lparr> players := [(''i1'', demoCapped), crewOf ''i2'' ''alice'', crewOf ''i3'' ''bob'',
                     crewOf ''i4'' ''carol''] \<rparr>"





section \<open>Basic facts\<close>

lemmas demo_defs = demoGame_def demoConfig_def initialGame_def mafiaOf_def crewOf_def newPlayer_def

lemma toLowerCase_simps [simp]:
  "toLowerCase [] = []" "toLowerCase (c # cs) = lowerChar c # toLowerCase cs"
  by (simp_all add: toLowerCase_def)

lemma map_of_mutateAt:
  "map_of ps k = Some p \<Longrightarrow> \<exists>p'. map_of (mutateAt i f ps) k = Some p' \<and> (p' = p \<or> p' = f p)"
proof (induction ps arbitrary: i)
  case Nil
  then show ?case by simp
next
  case (Cons e ps)
  show ?case
  proof (cases i)
    case 0
    then show ?thesis using Cons.prems by (auto simp: mutateAt_def)
  next
    case (Suc j)
    then show ?thesis using Cons.prems Cons.IH [of j]
      by (auto simp: mutateAt_def split: if_splits)
  qed
qed

lemma map_of_map_entry:
  "map_of (AList.map_entry k f ps) k' = (if k' = k then map_option f (map_of ps k) else map_of ps k')"
  by (induction ps) auto

section \<open>Roster invariant\<close>

text \<open>
  The roster stays well formed: the initial session has an empty roster, and every
  operation keeps the keys distinct and each player under its own id.
\<close>

lemma wellFormedRoster_ids:
  assumes "map (\<lambda>e. (fst e, inboxId (snd e))) ps' = map (\<lambda>e. (fst e, inboxId (snd e))) ps"
    and "wellFormedRoster ps"
  shows "wellFormedRoster ps'"
proof -
  have "map fst (map (\<lambda>e. (fst e, inboxId (snd e))) ps')
          = map fst (map (\<lambda>e. (fst e, inboxId (snd e))) ps)"
    using assms(1) by simp
  then have keys: "map fst ps' = map fst ps"
    by (simp add: comp_def)
  have own: "list_all (\<lambda>e. inboxId (snd e) = fst e) qs
               = list_all (\<lambda>x. snd x = fst x) (map (\<lambda>e. (fst e, inboxId (snd e))) qs)" for qs
    by (simp add: list_all_iff)
  show ?thesis
    using assms unfolding wellFormedRoster_def keys own by simp
qed

lemma ids_map_entry:
  "(\<And>p. inboxId (f p) = inboxId p) \<Longrightarrow>
     map (\<lambda>e. (fst e, inboxId (snd e))) (AList.map_entry k f ps)
       = map (\<lambda>e. (fst e, inboxId (snd e))) ps"
  by (induction ps) auto

lemma ids_mutateAt:
  "(\<And>p. inboxId (f p) = inboxId p) \<Longrightarrow>
     map (\<lambda>e. (fst e, inboxId (snd e))) (mutateAt i f ps)
       = map (\<lambda>e. (fst e, inboxId (snd e))) ps"
  by (auto simp: mutateAt_def map_update list_update_same_conv)

lemma ids_map_if:
  "(\<And>p. inboxId (f p) = inboxId p) \<Longrightarrow>
     map (\<lambda>e. (fst e, inboxId (snd e))) (map (\<lambda>(k, p). if c p then (k, f p) else (k, p)) ps)
       = map (\<lambda>e. (fst e, inboxId (snd e))) ps"
  by (induction ps) auto

lemma addPlayer_wellFormed:
  assumes "wellFormedRoster (players g)"
  shows "wellFormedRoster (players (fst (addPlayer agent g k name now groupAdd)))"
proof -
  have del: "wellFormedRoster (AList.delete e (players g))" for e
    using assms
    by (auto simp: wellFormedRoster_def AList.delete_eq list_all_iff distinct_map_filter)
  have upd: "wellFormedRoster (AList.update k (newPlayer k name) ps)" if "wellFormedRoster ps" for ps
  proof -
    have "set (AList.update k (newPlayer k name) ps) \<subseteq> insert (k, newPlayer k name) (set ps)"
      by (induction ps) auto
    then show ?thesis
      using that by (auto simp: wellFormedRoster_def distinct_update list_all_iff newPlayer_def)
  qed
  show ?thesis
    using assms del upd
    by (auto simp: addPlayer_def Let_def split: option.splits)
qed

lemma startRound_wellFormed:
  assumes "wellFormedRoster (players g)" and "startRound gen g r = Inr g'"
  shows "wellFormedRoster (players g')"
proof -
  have "players g' = map (\<lambda>(k, p). if isAlive p then (k, resetForRound p) else (k, p)) (players g)"
    using assms(2) by (auto simp: startRound_def split: if_splits)
  then have "map (\<lambda>e. (fst e, inboxId (snd e))) (players g')
               = map (\<lambda>e. (fst e, inboxId (snd e))) (players g)"
    using ids_map_if [of resetForRound isAlive "players g"] by (simp add: resetForRound_def)
  then show ?thesis
    using assms(1) by (rule wellFormedRoster_ids)
qed

lemma perform_wellFormed:
  assumes "wellFormedRoster (players g)" and "perform cfg env op g = Inr g'"
  shows "wellFormedRoster (players g')"
proof (cases op)
  case (CreateLobby o1 o2 t1 t2)
  then have "players g' = players g"
    using assms(2) by (auto simp: createLobby_def split: if_splits)
  then show ?thesis using assms(1) by simp
next
  case (AddPlayer agent k name now groupAdd)
  then show ?thesis
    using assms addPlayer_wellFormed [of g agent k name now groupAdd] by auto
next
  case (AssignRoles now rnd)
  then obtain i x where pl: "players g' = map (\<lambda>(k, p). if inboxId p \<noteq> x
                                       then (k, p\<lparr> role := Some CREW \<rparr>) else (k, p))
                                     (mutateAt i (\<lambda>p. p\<lparr> role := Some IMPOSTOR \<rparr>) (players g))"
    using assms(2) by (auto simp: assignRoles_def Let_def split: if_splits)
  define ps1 where "ps1 = mutateAt i (\<lambda>p. p\<lparr> role := Some IMPOSTOR \<rparr>) (players g)"
  have a: "map (\<lambda>e. (fst e, inboxId (snd e)))
             (map (\<lambda>(k, p). if inboxId p \<noteq> x then (k, p\<lparr> role := Some CREW \<rparr>) else (k, p)) ps1)
           = map (\<lambda>e. (fst e, inboxId (snd e))) ps1"
    by (rule ids_map_if) simp
  have b: "map (\<lambda>e. (fst e, inboxId (snd e))) ps1
           = map (\<lambda>e. (fst e, inboxId (snd e))) (players g)"
    unfolding ps1_def by (rule ids_mutateAt) simp
  have "map (\<lambda>e. (fst e, inboxId (snd e))) (players g')
               = map (\<lambda>e. (fst e, inboxId (snd e))) (players g)"
    using a b unfolding pl ps1_def by (rule trans)
  then show ?thesis
    using assms(1) by (rule wellFormedRoster_ids)
next
  case (StartRound r)
  then show ?thesis
    using assms startRound_wellFormed [of g "generateTask env" r g'] by simp
next
  case (CompleteTask k answer)
  have "map (\<lambda>e. (fst e, inboxId (snd e))) (players (fst (completeTask (validateTaskAnswer env) g k answer)))
               = map (\<lambda>e. (fst e, inboxId (snd e))) (players g)"
    by (auto simp: completeTask_def ids_map_entry split: option.splits)
  then show ?thesis
    using assms CompleteTask wellFormedRoster_ids by auto
next
  case (AttemptKill a tgt now rnd members)
  have "map (\<lambda>e. (fst e, inboxId (snd e))) (players (fst (attemptKill g a tgt now rnd members)))
               = map (\<lambda>e. (fst e, inboxId (snd e))) (players g)"
    by (auto simp: attemptKill_def Let_def ids_map_entry ids_mutateAt split: option.splits)
  then show ?thesis
    using assms AttemptKill wellFormedRoster_ids by auto
next
  case (CastVote k tgt)
  have "map (\<lambda>e. (fst e, inboxId (snd e))) (players (fst (castVote g k tgt)))
               = map (\<lambda>e. (fst e, inboxId (snd e))) (players g)"
    by (auto simp: castVote_def ids_map_entry split: option.splits)
  then show ?thesis
    using assms CastVote wellFormedRoster_ids by auto
next
  case (EliminatePlayer k)
  have "map (\<lambda>e. (fst e, inboxId (snd e))) (players (eliminatePlayer g k))
               = map (\<lambda>e. (fst e, inboxId (snd e))) (players g)"
    by (auto simp: eliminatePlayer_def ids_map_entry split: option.splits)
  then show ?thesis
    using assms EliminatePlayer wellFormedRoster_ids by auto
next
  case AdvancePhase
  then have adv: "advancePhase (generateTask env) g = Inr g'"
    using assms(2) by simp
  then have "players g' = players g \<or> (\<exists>r. startRound (generateTask env) g r = Inr g')"
    by (cases "state g") (auto simp: advancePhase_def)
  then show ?thesis
    using assms(1) startRound_wellFormed [of g "generateTask env" _ g'] by auto
next
  case Cleanup
  then show ?thesis
    using assms(2) by (auto simp: cleanup_def initialGame_def wellFormedRoster_def)
next
  case (VoteIntent k actionId isDM)
  have "map (\<lambda>e. (fst e, inboxId (snd e))) (players (fst (handleVoteIntent g k actionId isDM)))
               = map (\<lambda>e. (fst e, inboxId (snd e))) (players g)"
    by (auto simp: handleVoteIntent_def Let_def ids_map_entry split: option.splits)
  then show ?thesis
    using assms VoteIntent wellFormedRoster_ids by auto
next
  case (StartVotingPhase gf)
  have "map (\<lambda>e. (fst e, inboxId (snd e))) (players (startVotingPhase gf g))
               = map (\<lambda>e. (fst e, inboxId (snd e))) (players g)"
    using ids_map_if [of "\<lambda>p. p\<lparr> voted := False, voteTarget := None \<rparr>" isAlive "players g"]
    by (simp add: startVotingPhase_def)
  then show ?thesis
    using assms StartVotingPhase wellFormedRoster_ids by auto
qed

lemma initialGame_wellFormed: "wellFormedRoster (players (initialGame cfg))"
  by (simp add: initialGame_def wellFormedRoster_def)

section \<open>Lobby\<close>

lemma lastNonAgent_find:
  "n \<le> length arr \<Longrightarrow>
     lastNonAgent agent arr n
       = List.find (\<lambda>e. toLowerCase (fst e) \<noteq> toLowerCase agent) (rev (take n arr))"
  by (induction n) (simp_all add: take_Suc_conv_app_nth)

lemma lastNonAgent_full:
  "lastNonAgent agent arr (length arr)
     = List.find (\<lambda>e. toLowerCase (fst e) \<noteq> toLowerCase agent) (rev arr)"
  using lastNonAgent_find [of "length arr" arr agent] by simp

lemma find_skip_prefix:
  "\<forall>y\<in>set ys. \<not> P y \<Longrightarrow> List.find P (ys @ zs) = List.find P zs"
  by (induction ys) simp_all

lemma lastNonAgent_split:
  assumes "toLowerCase e \<noteq> toLowerCase agent"
    and "\<forall>y\<in>set ys. toLowerCase (fst y) = toLowerCase agent"
  shows "lastNonAgent agent (xs @ (e, ep) # ys) (length (xs @ (e, ep) # ys)) = Some (e, ep)"
proof -
  have "List.find (\<lambda>x. toLowerCase (fst x) \<noteq> toLowerCase agent) (rev ys @ (e, ep) # rev xs)
          = List.find (\<lambda>x. toLowerCase (fst x) \<noteq> toLowerCase agent) ((e, ep) # rev xs)"
    using assms(2) by (intro find_skip_prefix) simp
  then show ?thesis
    unfolding lastNonAgent_full using assms(1) by simp
qed

lemma lastNonAgent_Some:
  "lastNonAgent agent arr n = Some x \<Longrightarrow> toLowerCase (fst x) \<noteq> toLowerCase agent"
  by (induction n) (auto split: if_splits)

lemma update_fresh: "k \<notin> fst ` set ps \<Longrightarrow> AList.update k v ps = ps @ [(k, v)]"
  by (induction ps) auto

lemma delete_split:
  assumes "distinct (map fst (xs @ (e, ep) # ys))"
  shows "AList.delete e (xs @ (e, ep) # ys) = xs @ ys"
proof -
  have "e \<notin> fst ` set xs" and "e \<notin> fst ` set ys"
    using assms by auto
  then have "filter (\<lambda>(k', _). e \<noteq> k') xs = xs" and "filter (\<lambda>(k', _). e \<noteq> k') ys = ys"
    by (force simp: filter_id_conv)+
  then show ?thesis
    by (simp add: AList.delete_eq)
qed

text \<open>
  With the roster at capacity, for an id that is not in it, in a state and before a
  deadline that allow joining: the last entry in insertion order whose key is not the
  agent's (compared without case) is removed and the newcomer is added at the end, on
  both exits of \<open>addPlayer\<close>; the removed player is returned when the final transport
  calls return (or no lobby group is set), and nothing is returned when they reject.
  Every entry stored under the agent's id is still in the roster afterwards.
\<close>

lemma addPlayer_eviction:
  assumes "state g = LOBBY_CREATED \<or> state g = WAITING_FOR_PLAYERS"
    and "map_of (players g) k = None"
    and "\<forall>d. joinDeadline g = Some d \<longrightarrow> now \<le> d"
    and "length (players g) \<ge> MAX_PLAYERS"
    and "distinct (map fst (players g))"
  shows "(\<forall>xs e ep ys. players g = xs @ (e, ep) # ys \<and> toLowerCase e \<noteq> toLowerCase agent
             \<and> (\<forall>y\<in>set ys. toLowerCase (fst y) = toLowerCase agent) \<longrightarrow>
           addPlayer agent g k name now groupAdd
             = (g\<lparr> players := xs @ ys @ [(k, newPlayer k name)], state := WAITING_FOR_PLAYERS \<rparr>,
                if truthyStr (lobbyGroupId g) \<and> \<not> groupAdd then Inl TransportError
                else Inr \<lparr> success = True, removedPlayer = Some ep \<rparr>))
       \<and> (\<forall>x\<in>set (players g). toLowerCase (fst x) = toLowerCase agent \<longrightarrow>
             x \<in> set (players (fst (addPlayer agent g k name now groupAdd))))"
proof (intro conjI allI impI ballI)
  have open_join: "\<not> (truthyNum (joinDeadline g) \<and> now > the (joinDeadline g))"
    using assms(3) by (cases "joinDeadline g") (auto simp: truthyNum_def)
  have fresh: "k \<notin> fst ` set (players g)"
    using assms(2) by (simp add: map_of_eq_None_iff)
  {
    fix xs e ep ys
    assume h: "players g = xs @ (e, ep) # ys \<and> toLowerCase e \<noteq> toLowerCase agent
                 \<and> (\<forall>y\<in>set ys. toLowerCase (fst y) = toLowerCase agent)"
    have scan: "lastNonAgent agent (players g) (length (players g)) = Some (e, ep)"
      using h lastNonAgent_split [of e agent ys xs ep] by simp
    have del: "AList.delete e (players g) = xs @ ys"
      using h assms(5) delete_split [of xs e ep ys] by simp
    have "k \<notin> fst ` set (xs @ ys)"
      using fresh h by auto
    then have upd: "AList.update k (newPlayer k name) (xs @ ys) = xs @ ys @ [(k, newPlayer k name)]"
      using update_fresh [of k "xs @ ys"] by simp
    show "addPlayer agent g k name now groupAdd
             = (g\<lparr> players := xs @ ys @ [(k, newPlayer k name)], state := WAITING_FOR_PLAYERS \<rparr>,
                if truthyStr (lobbyGroupId g) \<and> \<not> groupAdd then Inl TransportError
                else Inr \<lparr> success = True, removedPlayer = Some ep \<rparr>)"
      using assms(1,2,4) open_join scan del upd
      by (auto simp: addPlayer_def Let_def)
  }
  fix x
  assume x: "x \<in> set (players g)" and ag: "toLowerCase (fst x) = toLowerCase agent"
  let ?last = "if length (players g) \<ge> MAX_PLAYERS
               then lastNonAgent agent (players g) (length (players g)) else None"
  let ?kept = "case ?last of None \<Rightarrow> players g | Some e \<Rightarrow> AList.delete (fst e) (players g)"
  have kept: "x \<in> set ?kept"
  proof (cases ?last)
    case None
    then show ?thesis using x by simp
  next
    case (Some e)
    then have "toLowerCase (fst e) \<noteq> toLowerCase agent"
      using lastNonAgent_Some [of agent "players g" "length (players g)" e]
      by (simp split: if_splits)
    then have "fst e \<noteq> fst x" using ag by auto
    then show ?thesis using x Some by (auto simp: AList.delete_eq)
  qed
  have "k \<notin> fst ` set ?kept"
    using fresh by (auto simp: AList.delete_eq split: option.splits)
  then have "AList.update k (newPlayer k name) ?kept = ?kept @ [(k, newPlayer k name)]"
    by (rule update_fresh)
  then show "x \<in> set (players (fst (addPlayer agent g k name now groupAdd)))"
    using assms(1,2) open_join kept
    by (auto simp: addPlayer_def Let_def)
qed

text \<open>
  C6. The claim that \<open>addPlayer\<close> returns the evicted player to the caller does not hold
  for the code on every call: in the full lobby, when the final \<^verbatim>\<open>addMembers\<close> rejects,
  dave has been removed from the roster and erin added, the state is written, and the call
  throws, so no evicted player reaches the caller. When the transport returns, the same
  call returns dave. The agent's entry stays in both cases.
\<close>

theorem addPlayer_throws_after_eviction:
  "snd (addPlayer ''agent'' demoLobby ''i7'' ''erin'' 50000 False) = Inl TransportError
   \<and> map fst (players (fst (addPlayer ''agent'' demoLobby ''i7'' ''erin'' 50000 False)))
       = [''i1'', ''i2'', ''i3'', ''i4'', ''AGENT'', ''i7'']
   \<and> state (fst (addPlayer ''agent'' demoLobby ''i7'' ''erin'' 50000 False)) = WAITING_FOR_PLAYERS
   \<and> snd (addPlayer ''agent'' demoLobby ''i7'' ''erin'' 50000 True)
       = Inr \<lparr> success = True, removedPlayer = Some (newPlayer ''i5'' ''dave'') \<rparr>
   \<and> fst (addPlayer ''agent'' demoLobby ''i7'' ''erin'' 50000 True)
       = fst (addPlayer ''agent'' demoLobby ''i7'' ''erin'' 50000 False)"
  by (simp add: addPlayer_def demoLobby_def initialGame_def MAX_PLAYERS_def truthyNum_def
        truthyStr_def numeral_eq_Suc lowerChar_def Let_def)

section \<open>Role assignment\<close>

lemma assignRoles_nth:
  assumes wf: "wellFormedRoster ps" and i: "i < length ps"
  defines "ps1 \<equiv> mutateAt i (\<lambda>p. p\<lparr> role := Some IMPOSTOR \<rparr>) ps"
  defines "ps2 \<equiv> map (\<lambda>(k, p). if inboxId p \<noteq> inboxId (snd (ps1 ! i))
                                  then (k, p\<lparr> role := Some CREW \<rparr>) else (k, p)) ps1"
  assumes j: "j < length ps"
  shows "ps2 ! j = (fst (ps ! j), (snd (ps ! j))\<lparr> role := Some (if j = i then IMPOSTOR else CREW) \<rparr>)"
proof -
  have own: "inboxId (snd (ps ! n)) = fst (ps ! n)" if "n < length ps" for n
    using wf that by (simp add: wellFormedRoster_def list_all_length)
  have len1: "length ps1 = length ps"
    by (simp add: ps1_def mutateAt_def)
  have at_i: "ps1 ! i = (fst (ps ! i), (snd (ps ! i))\<lparr> role := Some IMPOSTOR \<rparr>)"
    using i by (simp add: ps1_def mutateAt_def)
  have picked: "inboxId (snd (ps1 ! i)) = fst (ps ! i)"
    using at_i own [OF i] by simp
  show ?thesis
  proof (cases "j = i")
    case True
    then show ?thesis
      using i len1 at_i picked own [OF i] by (simp add: ps2_def)
  next
    case False
    have "distinct (map fst ps)"
      using wf by (simp add: wellFormedRoster_def)
    then have "fst (ps ! j) \<noteq> fst (ps ! i)"
      using False i j by (metis length_map nth_eq_iff_index_eq nth_map)
    moreover have "ps1 ! j = ps ! j"
      using False i by (simp add: ps1_def mutateAt_def)
    ultimately show ?thesis
      using False j len1 picked own [OF j]
      by (simp add: ps2_def case_prod_unfold)
  qed
qed

lemma count_one:
  assumes "i < length xs" and "\<And>j. j < length xs \<Longrightarrow> P (xs ! j) = (j = i)"
  shows "length (filter P xs) = 1"
proof -
  have "{j. j < length xs \<and> P (xs ! j)} = {i}"
    using assms by auto
  then show ?thesis
    by (simp add: length_filter_conv_card)
qed

lemma count_rest:
  assumes "i < length xs" and "\<And>j. j < length xs \<Longrightarrow> P (xs ! j) = (j \<noteq> i)"
  shows "length (filter P xs) = length xs - 1"
proof -
  have "{j. j < length xs \<and> P (xs ! j)} = {..<length xs} - {i}"
    using assms by auto
  then show ?thesis
    using assms(1) by (simp add: length_filter_conv_card)
qed

text \<open>
  C2. Whenever \<open>assignRoles\<close> succeeds on a roster (of \<open>N\<close> entries, each stored under
  its own id), the roster keeps its entries, \<open>N\<close> is at least
  \<open>MIN_PLAYERS_TO_START\<close>, exactly one entry has the adversary role and the
  \<open>N - 1\<close> others have the ally role, so the two counts add up to \<open>N\<close>, and
  \<open>impostorInboxId\<close> is the id of that one adversary.
\<close>

theorem assignRoles_one_adversary:
  assumes wf: "wellFormedRoster (players g)" and ok: "assignRoles cfg g now rnd = Inr g'"
  shows "map fst (players g') = map fst (players g)
       \<and> MIN_PLAYERS_TO_START cfg \<le> length (players g)
       \<and> length (filter (\<lambda>e. role (snd e) = Some IMPOSTOR) (players g')) = 1
       \<and> length (filter (\<lambda>e. role (snd e) = Some CREW) (players g')) = length (players g) - 1
       \<and> length (filter (\<lambda>e. role (snd e) = Some IMPOSTOR) (players g'))
           + length (filter (\<lambda>e. role (snd e) = Some CREW) (players g')) = length (players g)
       \<and> (\<exists>a. impostorInboxId g' = Some a
              \<and> (\<forall>e\<in>set (players g'). (role (snd e) = Some IMPOSTOR) = (fst e = a)))"
proof -
  define ps where "ps = players g"
  define n where "n = length ps"
  define i where "i = nat \<lfloor>rnd * of_nat n\<rfloor>"
  define ps1 where "ps1 = mutateAt i (\<lambda>p. p\<lparr> role := Some IMPOSTOR \<rparr>) ps"
  define ps2 where "ps2 = map (\<lambda>(k, p). if inboxId p \<noteq> inboxId (snd (ps1 ! i))
                                then (k, p\<lparr> role := Some CREW \<rparr>) else (k, p)) ps1"
  have start: "canStartGame cfg g now"
    and range: "0 \<le> \<lfloor>rnd * of_nat n\<rfloor>" "\<lfloor>rnd * of_nat n\<rfloor> < int n"
    using ok unfolding assignRoles_def Let_def n_def ps_def
    by (simp_all split: if_splits)
  have i: "i < n"
    using range unfolding i_def by linarith
  have g': "g' = g\<lparr> players := ps2, impostorInboxId := Some (inboxId (snd (ps1 ! i))),
                    state := ASSIGN_ROLES \<rparr>"
    using ok unfolding assignRoles_def Let_def ps2_def ps1_def i_def n_def ps_def
    by (simp split: if_splits)
  have wf': "wellFormedRoster ps"
    using wf by (simp add: ps_def)
  have nth: "ps2 ! j = (fst (ps ! j),
                (snd (ps ! j))\<lparr> role := Some (if j = i then IMPOSTOR else CREW) \<rparr>)"
    if "j < n" for j
    using assignRoles_nth [OF wf', of i j] i that unfolding ps2_def ps1_def n_def by simp
  have len: "length ps2 = n"
    by (simp add: ps2_def ps1_def mutateAt_def n_def)
  have keys: "map fst ps2 = map fst ps"
  proof (rule nth_equalityI)
    show "length (map fst ps2) = length (map fst ps)"
      using len by (simp add: n_def)
    fix j assume "j < length (map fst ps2)"
    then have "j < n" using len by simp
    then show "map fst ps2 ! j = map fst ps ! j"
      using nth [of j] len by (simp add: n_def)
  qed
  have picked: "inboxId (snd (ps1 ! i)) = fst (ps ! i)"
    using wf' i by (simp add: ps1_def mutateAt_def wellFormedRoster_def list_all_length n_def)
  have dist: "distinct (map fst ps)"
    using wf' by (simp add: wellFormedRoster_def)
  have one: "length (filter (\<lambda>e. role (snd e) = Some IMPOSTOR) ps2) = 1"
  proof (rule count_one [of i])
    show "i < length ps2" using i len by simp
    fix j assume "j < length ps2"
    then have "j < n" using len by simp
    then show "(role (snd (ps2 ! j)) = Some IMPOSTOR) = (j = i)"
      using nth [of j] by simp
  qed
  have rest: "length (filter (\<lambda>e. role (snd e) = Some CREW) ps2) = n - 1"
  proof -
    have "length (filter (\<lambda>e. role (snd e) = Some CREW) ps2) = length ps2 - 1"
    proof (rule count_rest [of i])
      show "i < length ps2" using i len by simp
      fix j assume "j < length ps2"
      then have "j < n" using len by simp
      then show "(role (snd (ps2 ! j)) = Some CREW) = (j \<noteq> i)"
        using nth [of j] by simp
    qed
    then show ?thesis using len by simp
  qed
  have who: "(role (snd e) = Some IMPOSTOR) = (fst e = fst (ps ! i))" if "e \<in> set ps2" for e
  proof -
    from that obtain j where j: "j < n" and e: "e = ps2 ! j"
      using len by (metis in_set_conv_nth)
    have "(fst (ps ! j) = fst (ps ! i)) = (j = i)"
      using dist i j nth_eq_iff_index_eq [of "map fst ps" j i] by (simp add: n_def)
    then show ?thesis
      using e nth [OF j] by simp
  qed
  have min: "MIN_PLAYERS_TO_START cfg \<le> n"
    using start by (simp add: canStartGame_def Let_def n_def ps_def)
  have sum: "length (filter (\<lambda>e. role (snd e) = Some IMPOSTOR) ps2)
               + length (filter (\<lambda>e. role (snd e) = Some CREW) ps2) = n"
    using one rest i by simp
  have pl: "players g' = ps2" and im: "impostorInboxId g' = Some (fst (ps ! i))"
    using g' picked by simp_all
  have "\<exists>a. impostorInboxId g' = Some a
              \<and> (\<forall>e\<in>set (players g'). (role (snd e) = Some IMPOSTOR) = (fst e = a))"
    unfolding pl im using who by blast
  then show ?thesis
    unfolding pl using keys min one rest sum by (simp add: n_def ps_def)
qed

theorem assignRoles_one_adversary_witness:
  "wellFormedRoster (players demoFullLobby)
   \<and> (\<exists>g'. assignRoles demoConfig demoFullLobby 130000 (5 / 8) = Inr g'
          \<and> impostorInboxId g' = Some ''i3''
          \<and> map (\<lambda>e. role (snd e)) (players g') = [Some CREW, Some CREW, Some IMPOSTOR, Some CREW]
          \<and> length (filter (\<lambda>e. role (snd e) = Some IMPOSTOR) (players g')) = 1
          \<and> length (filter (\<lambda>e. role (snd e) = Some CREW) (players g')) = 3)"
proof -
  have wf: "wellFormedRoster (players demoFullLobby)"
    by (simp add: wellFormedRoster_def demoFullLobby_def initialGame_def newPlayer_def)
  have fl: "\<lfloor>(5 / 8 :: rat) * 4\<rfloor> = 2"
    by (simp add: floor_unique)
  obtain g' where ok: "assignRoles demoConfig demoFullLobby 130000 (5 / 8) = Inr g'"
    and a: "impostorInboxId g' = Some ''i3''"
    and r: "map (\<lambda>e. role (snd e)) (players g') = [Some CREW, Some CREW, Some IMPOSTOR, Some CREW]"
    using fl
    by (simp add: assignRoles_def canStartGame_def truthyNum_def demoFullLobby_def demoConfig_def
          initialGame_def newPlayer_def mutateAt_def Let_def)
  from assignRoles_one_adversary [OF wf ok] wf ok a r show ?thesis
    by auto
qed

section \<open>Win condition\<close>

lemma checkWinCondition_unset:
  "impostorInboxId g = None \<Longrightarrow> map_of (players g) [] = None
     \<Longrightarrow> checkWinCondition g = \<lparr> gameEnded = True, winner = Some CREW \<rparr>"
  by (simp add: checkWinCondition_def truthyStr_def)

text \<open>
  C1. With an adversary assigned, \<open>checkWinCondition\<close> reports that the allies win
  whenever that adversary is missing from the roster or not alive, whatever the round and
  the state are. When the adversary is alive it reports that the adversary wins exactly
  when the round is \<open>MAX_ROUNDS\<close> and the state is round 3's voting state or
  \<open>GAME_END\<close>, and no winner in every other case.
\<close>

theorem checkWinCondition_outcome:
  assumes "impostorInboxId g = Some a"
  shows "((map_of (players g) a = None \<or> (\<exists>p. map_of (players g) a = Some p \<and> \<not> isAlive p))
            \<longrightarrow> checkWinCondition g = \<lparr> gameEnded = True, winner = Some CREW \<rparr>)
       \<and> ((\<exists>p. map_of (players g) a = Some p \<and> isAlive p) \<longrightarrow>
            (checkWinCondition g = \<lparr> gameEnded = True, winner = Some IMPOSTOR \<rparr>
               \<longleftrightarrow> round' g = MAX_ROUNDS \<and> (state g = ROUND_3_VOTING \<or> state g = GAME_END))
          \<and> (\<not> (round' g = MAX_ROUNDS \<and> (state g = ROUND_3_VOTING \<or> state g = GAME_END))
               \<longrightarrow> checkWinCondition g = \<lparr> gameEnded = False, winner = None \<rparr>))"
proof -
  have key: "(if truthyStr (impostorInboxId g) then the (impostorInboxId g) else []) = a"
    using assms by (cases a) (simp_all add: truthyStr_def)
  show ?thesis
    unfolding checkWinCondition_def key Let_def
    by (auto split: option.splits)
qed

theorem checkWinCondition_outcome_witness:
  "impostorInboxId (demoGame ROUND_3_VOTING 3) = Some ''i1''
   \<and> (\<exists>p. map_of (players (demoGame ROUND_3_VOTING 3)) ''i1'' = Some p \<and> isAlive p)
   \<and> checkWinCondition (demoGame ROUND_3_VOTING 3) = \<lparr> gameEnded = True, winner = Some IMPOSTOR \<rparr>
   \<and> checkWinCondition (demoGame ROUND_2_KILL 2) = \<lparr> gameEnded = False, winner = None \<rparr>
   \<and> checkWinCondition (eliminatePlayer (demoGame ROUND_2_KILL 2) ''i1'')
        = \<lparr> gameEnded = True, winner = Some CREW \<rparr>"
  using checkWinCondition_outcome [of "demoGame ROUND_3_VOTING 3" "''i1''"]
        checkWinCondition_outcome [of "demoGame ROUND_2_KILL 2" "''i1''"]
        checkWinCondition_outcome [of "eliminatePlayer (demoGame ROUND_2_KILL 2) ''i1''" "''i1''"]
  by (simp add: demoGame_def initialGame_def mafiaOf_def crewOf_def newPlayer_def
        eliminatePlayer_def MAX_ROUNDS_def)

section \<open>Kill attempts\<close>

text \<open>
  C4. For the living adversary in a kill phase: an attempt made less than
  \<open>killCooldown\<close> after the previous one (whose time stamp is not 0, which the code
  reads as "no attempt yet") is rejected and leaves the whole session, so also the attempt
  counter and the time stamp, as it was; an attempt that is off cooldown, under the cap and
  aimed at a living roster entry other than the adversary adds one to the counter and stores
  the current time, whatever the random draw gives.
\<close>

theorem attemptKill_cooldown_and_count:
  assumes "map_of (players g) a = Some imp" and "isAlive imp" and "role imp = Some IMPOSTOR"
    and "isKillPhase (state g)"
  shows "(\<forall>t0. lastKillAttempt imp = Some t0 \<and> t0 \<noteq> 0 \<and> now - t0 < killCooldown g \<longrightarrow>
            \<not> killed (snd (attemptKill g a tgt now rnd members))
            \<and> fst (attemptKill g a tgt now rnd members) = g)
       \<and> (\<forall>ti. resolveTarget g tgt members = Some ti \<and> inboxId (snd (players g ! ti)) \<noteq> a
                 \<and> (lastKillAttempt imp = None
                      \<or> (\<exists>t0. lastKillAttempt imp = Some t0 \<and> now - t0 \<ge> killCooldown g))
                 \<and> killAttempts imp < maxKillAttempts g \<longrightarrow>
            (\<exists>imp'. map_of (players (fst (attemptKill g a tgt now rnd members))) a = Some imp'
               \<and> killAttempts imp' = killAttempts imp + 1
               \<and> lastKillAttempt imp' = Some now
               \<and> killed (snd (attemptKill g a tgt now rnd members)) = (rnd < killSuccessChance g)))"
proof (intro conjI allI impI)
  fix t0
  assume h: "lastKillAttempt imp = Some t0 \<and> t0 \<noteq> 0 \<and> now - t0 < killCooldown g"
  show "\<not> killed (snd (attemptKill g a tgt now rnd members))"
    using assms h by (simp add: attemptKill_def truthyNum_def Let_def split: option.splits)
  show "fst (attemptKill g a tgt now rnd members) = g"
    using assms h by (simp add: attemptKill_def truthyNum_def Let_def split: option.splits)
next
  fix ti
  assume h: "resolveTarget g tgt members = Some ti \<and> inboxId (snd (players g ! ti)) \<noteq> a
                 \<and> (lastKillAttempt imp = None
                      \<or> (\<exists>t0. lastKillAttempt imp = Some t0 \<and> now - t0 \<ge> killCooldown g))
                 \<and> killAttempts imp < maxKillAttempts g"
  let ?upd = "\<lambda>p. p\<lparr> killAttempts := killAttempts p + 1, lastKillAttempt := Some now \<rparr>"
  let ?ps1 = "AList.map_entry a ?upd (players g)"
  have off: "\<not> (truthyNum (lastKillAttempt imp) \<and> now - the (lastKillAttempt imp) < killCooldown g)"
    using h by (auto simp: truthyNum_def)
  have m1: "map_of ?ps1 a = Some (?upd imp)"
    using assms(1) by (simp add: map_of_map_entry)
  show "\<exists>imp'. map_of (players (fst (attemptKill g a tgt now rnd members))) a = Some imp'
               \<and> killAttempts imp' = killAttempts imp + 1
               \<and> lastKillAttempt imp' = Some now
               \<and> killed (snd (attemptKill g a tgt now rnd members)) = (rnd < killSuccessChance g)"
  proof (cases "rnd < killSuccessChance g")
    case True
    from map_of_mutateAt [OF m1, of ti "\<lambda>p. p\<lparr> isAlive := False \<rparr>"]
    obtain p' where "map_of (mutateAt ti (\<lambda>p. p\<lparr> isAlive := False \<rparr>) ?ps1) a = Some p'"
      and "p' = ?upd imp \<or> p' = (?upd imp)\<lparr> isAlive := False \<rparr>" by blast
    then show ?thesis
      using assms h off True by (auto simp: attemptKill_def Let_def)
  next
    case False
    then show ?thesis
      using assms h off m1 by (auto simp: attemptKill_def Let_def)
  qed
qed

theorem attemptKill_cooldown_and_count_witness:
  "map_of (players demoKillGame) ''i1'' = Some demoMafia \<and> isAlive demoMafia
   \<and> role demoMafia = Some IMPOSTOR \<and> isKillPhase (state demoKillGame)
   \<and> \<not> killed (snd (attemptKill demoKillGame ''i1'' ''Alice'' 6000 0 None))
   \<and> fst (attemptKill demoKillGame ''i1'' ''Alice'' 6000 0 None) = demoKillGame
   \<and> (\<exists>imp'. map_of (players (fst (attemptKill demoKillGame ''i1'' ''Alice'' 30000 (3 / 4) None))) ''i1''
                = Some imp'
         \<and> killAttempts imp' = 2 \<and> lastKillAttempt imp' = Some 30000)"
proof -
  have h: "map_of (players demoKillGame) ''i1'' = Some demoMafia" "isAlive demoMafia"
     "role demoMafia = Some IMPOSTOR" "isKillPhase (state demoKillGame)"
    by (simp_all add: demo_defs demoMafia_def demoKillGame_def isKillPhase_def)
  have t: "resolveTarget demoKillGame ''Alice'' None = Some 1"
    by (simp add: demo_defs demoMafia_def demoKillGame_def resolveTarget_def resolveByAddress_def isAddressShaped_def trim_def
          isSpace_def lowerChar_def)
  have i: "inboxId (snd (players demoKillGame ! 1)) \<noteq> ''i1''"
          "lastKillAttempt demoMafia = Some 5000" "killAttempts demoMafia = 1"
          "killCooldown demoKillGame = 15000" "maxKillAttempts demoKillGame = 3"
    by (simp_all add: demo_defs demoMafia_def demoKillGame_def)
  show ?thesis
    using h t i
      attemptKill_cooldown_and_count [OF h, of 6000 "''Alice''" 0 None]
      attemptKill_cooldown_and_count [OF h, of 30000 "''Alice''" "3 / 4" None]
    by auto
qed

section \<open>Votes\<close>

text \<open>
  C10. In the vote branch of the intent handler, a living voter in a voting phase who has
  already voted and clicks the button of any registered player gets that player as the new
  \<open>voteTarget\<close>, with \<open>voted\<close> still set and the reply "changed your vote", while
  \<open>castVote\<close> in the same session refuses.
\<close>

theorem voteIntent_overwrites_vote:
  assumes "map_of (players g) v = Some voter" and "isAlive voter" and "isVotingPhase (state g)"
    and "voted voter" and "map_of (players g) t = Some tp"
  shows "snd (handleVoteIntent g v (''vote-'' @ t) False) = VoteChanged (username tp)
       \<and> map_of (players (fst (handleVoteIntent g v (''vote-'' @ t) False))) v
           = Some (voter\<lparr> voted := True, voteTarget := Some t \<rparr>)
       \<and> castVote g v name = (g, False)"
  using assms
  by (simp add: handleVoteIntent_def castVote_def getPlayer_def map_of_map_entry)

theorem voteIntent_overwrites_vote_witness:
  "map_of (players demoVotedGame) ''i2''
     = Some ((snd (crewOf ''i2'' ''alice''))\<lparr> voted := True, voteTarget := Some ''i3'' \<rparr>)
   \<and> isVotingPhase (state demoVotedGame)
   \<and> map_of (players demoVotedGame) ''i4'' = Some (snd (crewOf ''i4'' ''carol''))
   \<and> snd (handleVoteIntent demoVotedGame ''i2'' ''vote-i4'' False) = VoteChanged ''carol''
   \<and> map_of (players (fst (handleVoteIntent demoVotedGame ''i2'' ''vote-i4'' False))) ''i2''
       = Some ((snd (crewOf ''i2'' ''alice''))\<lparr> voted := True, voteTarget := Some ''i4'' \<rparr>)
   \<and> castVote demoVotedGame ''i2'' ''carol'' = (demoVotedGame, False)"
proof -
  have h: "map_of (players demoVotedGame) ''i2''
             = Some ((snd (crewOf ''i2'' ''alice''))\<lparr> voted := True, voteTarget := Some ''i3'' \<rparr>)"
      "isAlive ((snd (crewOf ''i2'' ''alice''))\<lparr> voted := True, voteTarget := Some ''i3'' \<rparr>)"
      "isVotingPhase (state demoVotedGame)"
      "voted ((snd (crewOf ''i2'' ''alice''))\<lparr> voted := True, voteTarget := Some ''i3'' \<rparr>)"
      "map_of (players demoVotedGame) ''i4'' = Some (snd (crewOf ''i4'' ''carol''))"
    by (simp_all add: demoVotedGame_def demo_defs castVote_def isVotingPhase_def lowerChar_def)
  show ?thesis
    using h voteIntent_overwrites_vote [OF h, of "''carol''"]
    by (simp add: crewOf_def newPlayer_def)
qed

text \<open>
  C8. The claim that a player who is not alive can never be recorded as a vote target
  does not hold for the code: with bob eliminated, alice's \<open>castVote\<close> for bob succeeds
  and stores bob's id, and so does a click on bob's vote button.
\<close>

theorem castVote_records_dead_target:
  "map_option isAlive (getPlayer demoVoteGame ''i3'') = Some False
   \<and> snd (castVote demoVoteGame ''i2'' ''bob'')
   \<and> map_option voteTarget (getPlayer (fst (castVote demoVoteGame ''i2'' ''bob'')) ''i2'')
       = Some (Some ''i3'')
   \<and> snd (handleVoteIntent demoVoteGame ''i2'' ''vote-i3'' False) = VoteCast ''bob''
   \<and> map_option voteTarget
        (getPlayer (fst (handleVoteIntent demoVoteGame ''i2'' ''vote-i3'' False)) ''i2'')
       = Some (Some ''i3'')"
  by (simp add: demoVoteGame_def demo_defs eliminatePlayer_def castVote_def handleVoteIntent_def
        getPlayer_def isVotingPhase_def lowerChar_def Let_def)

section \<open>Tally\<close>

lemma spec_voteCount_Nil [simp]: "spec_voteCount [] t = 0"
  by (simp add: spec_voteCount_def)








section \<open>Phase timeouts\<close>

lemma killPhaseTimeout_stale:
  "\<not> isKillPhase (state g) \<Longrightarrow> killPhaseTimeout gen g = Inr g"
  by (simp add: killPhaseTimeout_def)


text \<open>
  C9. Only the kill-phase callback looks at the state before it advances. A task timeout
  firing during the discussion moves the session to the vote, a discussion timeout
  firing during round 1's vote starts round 2, and a voting timeout of round 1 firing in
  round 2's kill phase puts the session back to round 2's tasks; the kill timeout firing
  outside a kill phase changes nothing.
\<close>

theorem stale_timeouts_advance:
  "map_sum id state (taskPhaseTimeout demoTasks (demoGame ROUND_1_DISCUSSION 1)) = Inr ROUND_1_VOTING
   \<and> map_sum id state (discussionTimeout demoTasks True (demoGame ROUND_1_VOTING 1))
       = Inr ROUND_2_TASKS
   \<and> map_sum id round' (discussionTimeout demoTasks True (demoGame ROUND_1_VOTING 1)) = Inr 2
   \<and> map_sum id state (votingTimeout demoConfig demoTasks True 1 (demoGame ROUND_2_KILL 2))
       = Inr ROUND_2_TASKS
   \<and> killPhaseTimeout demoTasks (demoGame ROUND_1_DISCUSSION 1) = Inr (demoGame ROUND_1_DISCUSSION 1)"
  by (simp add: taskPhaseTimeout_def discussionTimeout_def killPhaseTimeout_def votingTimeout_def
        advancePhase_def startRound_def startVotingPhase_def lobbyAvailable_def truthyStr_def
        getStateForRoundPhase_def MAX_ROUNDS_def isKillPhase_def demoGame_def initialGame_def
        processVoting_def getVoteResults_def nextRoundOrEnd_def
        mafiaOf_def crewOf_def newPlayer_def)


section \<open>Per-round fields\<close>

text \<open>
  What each operation does to a player that is in the roster before and after it: either
  the three per-round fields are kept or set, or the operation runs \<open>startRound\<close> and
  the player is alive and reset, or the operation is the vote reset of
  \<open>startVotingPhase\<close> and the player is alive and has the two vote fields cleared.
\<close>

lemma map_of_map_keyed:
  "(\<And>k p. fst (F (k, p)) = k) \<Longrightarrow>
     map_of (map F ps) k = map_option (\<lambda>p. snd (F (k, p))) (map_of ps k)"
proof (induction ps)
  case Nil
  then show ?case by simp
next
  case (Cons e ps)
  obtain k' p' where e: "e = (k', p')" by (cases e)
  have "F (k', p') = (k', snd (F (k', p')))"
    using Cons.prems [of k' p'] by (metis prod.collapse)
  then show ?case
    using Cons e by (cases "k' = k") simp_all
qed

lemma startRound_player:
  assumes "startRound gen g r = Inr g'" and "map_of (players g) k = Some p"
  shows "map_of (players g') k = Some (if isAlive p then resetForRound p else p)"
proof -
  have "players g' = map (\<lambda>(k, p). if isAlive p then (k, resetForRound p) else (k, p)) (players g)"
    using assms(1) by (auto simp: startRound_def split: if_splits)
  moreover have "map_of (map (\<lambda>(k, p). if isAlive p then (k, resetForRound p) else (k, p)) (players g)) k
                   = map_option (\<lambda>p. snd (if isAlive p then (k, resetForRound p) else (k, p)))
                       (map_of (players g) k)"
    by (subst map_of_map_keyed) auto
  ultimately show ?thesis
    using assms(2) by simp
qed

lemma startVotingPhase_player:
  assumes "map_of (players g) k = Some p"
  shows "map_of (players (startVotingPhase gf g)) k
           = Some (if lobbyAvailable g gf \<and> isAlive p
                   then p\<lparr> voted := False, voteTarget := None \<rparr> else p)"
proof (cases "lobbyAvailable g gf")
  case False
  then show ?thesis using assms by (simp add: startVotingPhase_def)
next
  case True
  have "map_of (map (\<lambda>(k, p). if isAlive p then (k, p\<lparr> voted := False, voteTarget := None \<rparr>)
                                 else (k, p)) (players g)) k
          = map_option (\<lambda>p. snd (if isAlive p then (k, p\<lparr> voted := False, voteTarget := None \<rparr>)
                                  else (k, p))) (map_of (players g) k)"
    by (subst map_of_map_keyed) auto
  then show ?thesis
    using True assms by (simp add: startVotingPhase_def)
qed

text \<open>Operations that keep every per-round field of every player that stays in the roster.\<close>

lemma addPlayer_player:
  assumes "map_of (players g) k = Some p"
    and "map_of (players (fst (addPlayer agent g k0 name now groupAdd))) k = Some p'"
  shows "p' = p"
proof (cases "fst (addPlayer agent g k0 name now groupAdd) = g")
  case True
  then show ?thesis using assms by simp
next
  case False
  then have fresh: "map_of (players g) k0 = None"
    by (auto simp: addPlayer_def Let_def split: if_splits)
  then have ne: "k \<noteq> k0" using assms(1) by auto
  define kept where "kept = (case (if length (players g) \<ge> MAX_PLAYERS
                                       then lastNonAgent agent (players g) (length (players g))
                                       else None) of
                                 None \<Rightarrow> players g
                               | Some e \<Rightarrow> AList.delete (fst e) (players g))"
  have pl: "players (fst (addPlayer agent g k0 name now groupAdd))
              = AList.update k0 (newPlayer k0 name) kept"
    using False unfolding kept_def by (auto simp: addPlayer_def Let_def split: if_splits)
  have kept: "kept = players g \<or> (\<exists>e. kept = AList.delete e (players g))"
    unfolding kept_def by (auto split: option.splits)
  have "map_of kept k = Some p'"
    using assms(2) ne unfolding pl by (simp add: update_conv')
  then show ?thesis
    using kept assms(1) by (auto simp: delete_conv' split: if_splits)
qed

lemma assignRoles_player:
  assumes "assignRoles cfg g now rnd = Inr g'" and "map_of (players g) k = Some p"
    and "map_of (players g') k = Some p'"
  shows "\<exists>r. p' = p\<lparr> role := r \<rparr>"
proof -
  obtain i x where pl: "players g' = map (\<lambda>(k, p). if inboxId p \<noteq> x
                                       then (k, p\<lparr> role := Some CREW \<rparr>) else (k, p))
                                     (mutateAt i (\<lambda>p. p\<lparr> role := Some IMPOSTOR \<rparr>) (players g))"
    using assms(1) by (auto simp: assignRoles_def Let_def split: if_splits)
  obtain q where q: "map_of (mutateAt i (\<lambda>p. p\<lparr> role := Some IMPOSTOR \<rparr>) (players g)) k = Some q"
    and q': "q = p \<or> q = p\<lparr> role := Some IMPOSTOR \<rparr>"
    using map_of_mutateAt [OF assms(2)] by blast
  have "map_of (players g') k
          = map_option (\<lambda>p. snd (if inboxId p \<noteq> x then (k, p\<lparr> role := Some CREW \<rparr>) else (k, p)))
              (map_of (mutateAt i (\<lambda>p. p\<lparr> role := Some IMPOSTOR \<rparr>) (players g)) k)"
    unfolding pl by (subst map_of_map_keyed) auto
  then have "p' = (if inboxId q \<noteq> x then q\<lparr> role := Some CREW \<rparr> else q)"
    using q assms(3) by simp
  then show ?thesis
    using q' by (metis Player.surjective Player.update_convs(3))
qed

lemma attemptKill_player:
  assumes "map_of (players g) k = Some p"
    and "map_of (players (fst (attemptKill g a tgt now rnd members))) k = Some p'"
  shows "killAttempts p \<le> killAttempts p' \<and> voted p' = voted p \<and> voteTarget p' = voteTarget p"
proof -
  let ?upd = "\<lambda>p. p\<lparr> killAttempts := killAttempts p + 1, lastKillAttempt := Some now \<rparr>"
  let ?ps1 = "AList.map_entry a ?upd (players g)"
  have cases: "players (fst (attemptKill g a tgt now rnd members)) = players g
        \<or> players (fst (attemptKill g a tgt now rnd members)) = ?ps1
        \<or> (\<exists>ti. players (fst (attemptKill g a tgt now rnd members))
                  = mutateAt ti (\<lambda>p. p\<lparr> isAlive := False \<rparr>) ?ps1)"
    by (auto simp: attemptKill_def Let_def split: option.splits)
  define q where "q = (if k = a then ?upd p else p)"
  have q: "map_of ?ps1 k = Some q"
    using assms(1) by (auto simp: map_of_map_entry q_def)
  have q': "q = p \<or> q = ?upd p"
    by (simp add: q_def)
  from cases show ?thesis
  proof (elim disjE exE)
    assume "players (fst (attemptKill g a tgt now rnd members)) = players g"
    then show ?thesis using assms by simp
  next
    assume "players (fst (attemptKill g a tgt now rnd members)) = ?ps1"
    then show ?thesis using assms(2) q q' by auto
  next
    fix ti
    assume "players (fst (attemptKill g a tgt now rnd members))
              = mutateAt ti (\<lambda>p. p\<lparr> isAlive := False \<rparr>) ?ps1"
    then show ?thesis
      using assms(2) q' map_of_mutateAt [OF q, of ti "\<lambda>p. p\<lparr> isAlive := False \<rparr>"] by auto
  qed
qed

lemma completeTask_player:
  assumes "map_of (players g) k = Some p"
    and "map_of (players (fst (completeTask validate g k0 answer))) k = Some p'"
  shows "killAttempts p' = killAttempts p \<and> voted p' = voted p \<and> voteTarget p' = voteTarget p"
  using assms
  by (auto simp: completeTask_def map_of_map_entry split: option.splits if_splits)

lemma castVote_player:
  assumes "map_of (players g) k = Some p"
    and "map_of (players (fst (castVote g k0 tgt))) k = Some p'"
  shows "killAttempts p' = killAttempts p \<and> (voted p \<longrightarrow> voted p')
       \<and> (voteTarget p \<noteq> None \<longrightarrow> voteTarget p' \<noteq> None)"
  using assms
  by (auto simp: castVote_def map_of_map_entry split: option.splits if_splits)

lemma handleVoteIntent_player:
  assumes "map_of (players g) k = Some p"
    and "map_of (players (fst (handleVoteIntent g k0 actionId isDM))) k = Some p'"
  shows "killAttempts p' = killAttempts p \<and> (voted p \<longrightarrow> voted p')
       \<and> (voteTarget p \<noteq> None \<longrightarrow> voteTarget p' \<noteq> None)"
  using assms
  by (auto simp: handleVoteIntent_def getPlayer_def Let_def map_of_map_entry
           split: option.splits if_splits)

lemma eliminatePlayer_player:
  assumes "map_of (players g) k = Some p"
    and "map_of (players (eliminatePlayer g k0)) k = Some p'"
  shows "killAttempts p' = killAttempts p \<and> voted p' = voted p \<and> voteTarget p' = voteTarget p"
  using assms
  by (auto simp: eliminatePlayer_def map_of_map_entry split: option.splits if_splits)

lemma advancePhase_cases:
  assumes "advancePhase gen g = Inr g'"
  shows "players g' = players g
       \<or> ((state g = ROUND_1_VOTING \<or> state g = ROUND_2_VOTING) \<and> (\<exists>r. startRound gen g r = Inr g'))"
  using assms by (cases "state g") (auto simp: advancePhase_def)

lemma perform_player:
  assumes "perform cfg env op g = Inr g'" and "map_of (players g) k = Some p"
    and "map_of (players g') k = Some p'"
  shows "(killAttempts p \<le> killAttempts p' \<and> (voted p \<longrightarrow> voted p')
            \<and> (voteTarget p \<noteq> None \<longrightarrow> voteTarget p' \<noteq> None))
       \<or> (runsStartRound op g \<and> isAlive p \<and> p' = resetForRound p)
       \<or> ((\<exists>gf. op = StartVotingPhase gf) \<and> isAlive p
            \<and> p' = p\<lparr> voted := False, voteTarget := None \<rparr>)"
proof (cases op)
  case (CreateLobby o1 o2 t1 t2)
  then have "players g' = players g"
    using assms(1) by (auto simp: createLobby_def split: if_splits)
  then show ?thesis using assms by simp
next
  case (AddPlayer agent k0 name now groupAdd)
  then show ?thesis
    using assms addPlayer_player [of g k p agent k0 name now groupAdd p'] by auto
next
  case (AssignRoles now rnd)
  then obtain r where "p' = p\<lparr> role := r \<rparr>"
    using assms assignRoles_player [of cfg g now rnd g' k p p'] by auto
  then show ?thesis by simp
next
  case (StartRound r)
  then have "map_of (players g') k = Some (if isAlive p then resetForRound p else p)"
    using assms startRound_player [of "generateTask env" g r g' k p] by simp
  then show ?thesis
    using assms(3) StartRound by (auto simp: runsStartRound_def)
next
  case (CompleteTask k0 answer)
  then show ?thesis
    using assms completeTask_player [of g k p "validateTaskAnswer env" k0 answer p'] by auto
next
  case (AttemptKill a tgt now rnd members)
  then show ?thesis
    using assms attemptKill_player [of g k p a tgt now rnd members p'] by auto
next
  case (CastVote k0 tgt)
  then show ?thesis
    using assms castVote_player [of g k p k0 tgt p'] by auto
next
  case (EliminatePlayer k0)
  then show ?thesis
    using assms eliminatePlayer_player [of g k p k0 p'] by auto
next
  case AdvancePhase
  then have adv: "advancePhase (generateTask env) g = Inr g'"
    using assms(1) by simp
  from advancePhase_cases [OF adv] show ?thesis
  proof
    assume "players g' = players g"
    then show ?thesis using assms by simp
  next
    assume h: "(state g = ROUND_1_VOTING \<or> state g = ROUND_2_VOTING)
                 \<and> (\<exists>r. startRound (generateTask env) g r = Inr g')"
    then obtain r where "startRound (generateTask env) g r = Inr g'" by blast
    then have "map_of (players g') k = Some (if isAlive p then resetForRound p else p)"
      using assms(2) by (rule startRound_player)
    then show ?thesis
      using assms(3) h AdvancePhase by (auto simp: runsStartRound_def)
  qed
next
  case Cleanup
  then have "players g' = []"
    using assms(1) by (auto simp: cleanup_def initialGame_def)
  then show ?thesis
    using assms(3) by simp
next
  case (VoteIntent k0 actionId isDM)
  then show ?thesis
    using assms handleVoteIntent_player [of g k p k0 actionId isDM p'] by auto
next
  case (StartVotingPhase gf)
  then have "map_of (players g') k
           = Some (if lobbyAvailable g gf \<and> isAlive p
                   then p\<lparr> voted := False, voteTarget := None \<rparr> else p)"
    using assms startVotingPhase_player [of g k p gf] by auto
  then show ?thesis
    using assms(3) StartVotingPhase by (auto split: if_splits)
qed

lemma attemptKill_capped:
  assumes "map_of (players g) a = Some imp" and "killAttempts imp \<ge> maxKillAttempts g"
  shows "\<not> killed (snd (attemptKill g a tgt now rnd members))
       \<and> fst (attemptKill g a tgt now rnd members) = g"
  using assms by (simp add: attemptKill_def Let_def split: option.splits)

text \<open>
  C5. Once a player's \<open>killAttempts\<close> has reached \<open>maxKillAttempts\<close>, every
  \<open>attemptKill\<close> by that player is rejected and changes nothing, at any clock value,
  so also after the cooldown; an operation after which a player's \<open>killAttempts\<close> is
  lower than before is one that runs \<open>startRound\<close>, the player is alive and the new
  value is 0; and \<open>startRound\<close> does set the counter of every living player to 0.
\<close>

theorem kill_cap_and_reset:
  "(map_of (players g) a = Some imp \<and> killAttempts imp \<ge> maxKillAttempts g \<longrightarrow>
      \<not> killed (snd (attemptKill g a tgt now rnd members))
      \<and> fst (attemptKill g a tgt now rnd members) = g)
   \<and> (perform cfg env op g = Inr g' \<and> map_of (players g) k = Some p
         \<and> map_of (players g') k = Some p' \<and> killAttempts p' < killAttempts p \<longrightarrow>
       runsStartRound op g \<and> isAlive p \<and> killAttempts p' = 0)
   \<and> (startRound gen g r = Inr g' \<and> map_of (players g) k = Some p \<and> isAlive p \<longrightarrow>
       map_option killAttempts (map_of (players g') k) = Some 0)"
proof (intro conjI impI)
  assume "map_of (players g) a = Some imp \<and> killAttempts imp \<ge> maxKillAttempts g"
  then show "\<not> killed (snd (attemptKill g a tgt now rnd members))"
    and "fst (attemptKill g a tgt now rnd members) = g"
    using attemptKill_capped [of g a imp tgt now rnd members] by simp_all
next
  assume h: "perform cfg env op g = Inr g' \<and> map_of (players g) k = Some p
         \<and> map_of (players g') k = Some p' \<and> killAttempts p' < killAttempts p"
  then have "(killAttempts p \<le> killAttempts p' \<and> (voted p \<longrightarrow> voted p')
            \<and> (voteTarget p \<noteq> None \<longrightarrow> voteTarget p' \<noteq> None))
       \<or> (runsStartRound op g \<and> isAlive p \<and> p' = resetForRound p)
       \<or> ((\<exists>gf. op = StartVotingPhase gf) \<and> isAlive p
            \<and> p' = p\<lparr> voted := False, voteTarget := None \<rparr>)"
    using perform_player [of cfg env op g g' k p p'] by simp
  then have r: "runsStartRound op g \<and> isAlive p \<and> p' = resetForRound p"
    using h by auto
  then show "runsStartRound op g" and "isAlive p" and "killAttempts p' = 0"
    by (simp_all add: resetForRound_def)
next
  assume "startRound gen g r = Inr g' \<and> map_of (players g) k = Some p \<and> isAlive p"
  then show "map_option killAttempts (map_of (players g') k) = Some 0"
    using startRound_player [of gen g r g' k p] by (simp add: resetForRound_def)
qed

theorem kill_cap_and_reset_witness:
  "map_of (players demoCapGame) ''i1'' = Some demoCapped
   \<and> killAttempts demoCapped \<ge> maxKillAttempts demoCapGame
   \<and> attemptKill demoCapGame ''i1'' ''alice'' 9000000 0 None
       = (demoCapGame, \<lparr> killed = False, message = MaxAttemptsReached \<rparr>)
   \<and> (\<exists>g' p'. perform demoConfig demoEnv (StartRound 2) demoCapGame = Inr g'
          \<and> map_of (players g') ''i1'' = Some p' \<and> killAttempts p' < killAttempts demoCapped
          \<and> runsStartRound (StartRound 2) demoCapGame \<and> isAlive demoCapped
          \<and> killAttempts p' = 0)"
proof -
  have h: "map_of (players demoCapGame) ''i1'' = Some demoCapped"
    "killAttempts demoCapped \<ge> maxKillAttempts demoCapGame"
    by (simp_all add: demoCapGame_def demoCapped_def demo_defs)
  have rej: "attemptKill demoCapGame ''i1'' ''alice'' 9000000 0 None
       = (demoCapGame, \<lparr> killed = False, message = MaxAttemptsReached \<rparr>)"
    by (simp add: attemptKill_def resolveTarget_def resolveByAddress_def isAddressShaped_def
          trim_def isSpace_def lowerChar_def isKillPhase_def truthyNum_def Let_def
          demoCapGame_def demoCapped_def demo_defs)
  obtain g' where g': "perform demoConfig demoEnv (StartRound 2) demoCapGame = Inr g'"
    by (simp add: startRound_def MAX_ROUNDS_def)
  then have "startRound demoTasks demoCapGame 2 = Inr g'"
    by (simp add: demoEnv_def)
  from startRound_player [OF this h(1)]
  have p': "map_of (players g') ''i1'' = Some (resetForRound demoCapped)"
    by (simp add: demoCapped_def newPlayer_def)
  have lt: "killAttempts (resetForRound demoCapped) < killAttempts demoCapped"
    by (simp add: resetForRound_def demoCapped_def)
  from kill_cap_and_reset [of demoCapGame "''i1''" demoCapped "''alice''" 9000000 0 None
      demoConfig demoEnv "StartRound 2" g' "''i1''" demoCapped "resetForRound demoCapped"
      demoTasks 2]
    h rej g' p' lt
  show ?thesis by auto
qed

text \<open>
  C7, as amended. For a player kept in the roster: an operation that lowers
  \<open>killAttempts\<close> runs \<open>startRound\<close>; an operation that clears \<open>voted\<close> or
  \<open>voteTarget\<close> runs \<open>startRound\<close> or is the vote reset of \<open>startVotingPhase\<close>;
  in each case the player is alive. \<open>startRound\<close> resets the three fields of every
  living player, and \<open>startVotingPhase\<close> clears the two vote fields of every living
  player and keeps \<open>killAttempts\<close>.
\<close>

theorem per_round_fields_reset:
  "(perform cfg env op g = Inr g' \<and> map_of (players g) k = Some p
      \<and> map_of (players g') k = Some p' \<longrightarrow>
        (killAttempts p' < killAttempts p \<longrightarrow> isAlive p \<and> runsStartRound op g)
      \<and> (voted p \<and> \<not> voted p' \<longrightarrow>
           isAlive p \<and> (runsStartRound op g \<or> (\<exists>gf. op = StartVotingPhase gf)))
      \<and> (voteTarget p \<noteq> None \<and> voteTarget p' = None \<longrightarrow>
           isAlive p \<and> (runsStartRound op g \<or> (\<exists>gf. op = StartVotingPhase gf))))
   \<and> (startRound gen g r = Inr g' \<and> map_of (players g) k = Some p \<and> isAlive p \<longrightarrow>
        (\<exists>p'. map_of (players g') k = Some p'
           \<and> killAttempts p' = 0 \<and> \<not> voted p' \<and> voteTarget p' = None))
   \<and> (lobbyAvailable g gf \<and> map_of (players g) k = Some p \<and> isAlive p \<longrightarrow>
        (\<exists>p'. map_of (players (startVotingPhase gf g)) k = Some p'
           \<and> killAttempts p' = killAttempts p \<and> \<not> voted p' \<and> voteTarget p' = None))"
proof -
  have steps: "(killAttempts p' < killAttempts p \<longrightarrow> isAlive p \<and> runsStartRound op g)
      \<and> (voted p \<and> \<not> voted p' \<longrightarrow>
           isAlive p \<and> (runsStartRound op g \<or> (\<exists>gf. op = StartVotingPhase gf)))
      \<and> (voteTarget p \<noteq> None \<and> voteTarget p' = None \<longrightarrow>
           isAlive p \<and> (runsStartRound op g \<or> (\<exists>gf. op = StartVotingPhase gf)))"
    if "perform cfg env op g = Inr g'" and "map_of (players g) k = Some p"
      and "map_of (players g') k = Some p'"
    using perform_player [OF that] by (auto simp: resetForRound_def)
  have round: "\<exists>p'. map_of (players g') k = Some p'
           \<and> killAttempts p' = 0 \<and> \<not> voted p' \<and> voteTarget p' = None"
    if "startRound gen g r = Inr g'" and "map_of (players g) k = Some p" and "isAlive p"
    using startRound_player [OF that(1,2)] that(3) by (simp add: resetForRound_def)
  have vote: "\<exists>p'. map_of (players (startVotingPhase gf g)) k = Some p'
           \<and> killAttempts p' = killAttempts p \<and> \<not> voted p' \<and> voteTarget p' = None"
    if "lobbyAvailable g gf" and "map_of (players g) k = Some p" and "isAlive p"
    using startVotingPhase_player [OF that(2), of gf] that(1,3) by simp
  show ?thesis
    using steps round vote by blast
qed

theorem per_round_fields_reset_witness:
  "lobbyAvailable demoVotedGame True
   \<and> map_of (players demoVotedGame) ''i2''
       = Some ((snd (crewOf ''i2'' ''alice''))\<lparr> voted := True, voteTarget := Some ''i3'' \<rparr>)
   \<and> (\<exists>p'. map_of (players (startVotingPhase True demoVotedGame)) ''i2'' = Some p'
          \<and> \<not> voted p' \<and> voteTarget p' = None)
   \<and> (\<exists>g' p'. perform demoConfig demoEnv (StartVotingPhase True) demoVotedGame = Inr g'
          \<and> map_of (players g') ''i2'' = Some p' \<and> \<not> voted p'
          \<and> (runsStartRound (StartVotingPhase True) demoVotedGame
               \<or> (\<exists>gf. StartVotingPhase True = StartVotingPhase gf)))"
proof -
  let ?alice = "(snd (crewOf ''i2'' ''alice''))\<lparr> voted := True, voteTarget := Some ''i3'' \<rparr>"
  have h: "lobbyAvailable demoVotedGame True" "map_of (players demoVotedGame) ''i2'' = Some ?alice"
    "isAlive ?alice" "voted ?alice"
    by (simp_all add: demoVotedGame_def demo_defs castVote_def isVotingPhase_def lowerChar_def
          lobbyAvailable_def truthyStr_def)
  have p': "map_of (players (startVotingPhase True demoVotedGame)) ''i2''
              = Some (?alice\<lparr> voted := False, voteTarget := None \<rparr>)"
    using startVotingPhase_player [OF h(2), of True] h(1,3) by simp
  from per_round_fields_reset [of demoConfig demoEnv "StartVotingPhase True" demoVotedGame
      "startVotingPhase True demoVotedGame" "''i2''" ?alice
      "?alice\<lparr> voted := False, voteTarget := None \<rparr>" demoTasks 1 True]
    h p'
  show ?thesis by auto
qed

text \<open>
  C7 as stated fails: in round 1's voting state, with no \<open>startRound\<close> in between,
  \<open>startVotingPhase\<close> clears the vote that the living player alice has cast.
\<close>

theorem per_round_fields_counterexample:
  "map_option isAlive (getPlayer demoVotedGame ''i2'') = Some True
   \<and> map_option voted (getPlayer demoVotedGame ''i2'') = Some True
   \<and> map_option voteTarget (getPlayer demoVotedGame ''i2'') = Some (Some ''i3'')
   \<and> state demoVotedGame = ROUND_1_VOTING
   \<and> state (startVotingPhase True demoVotedGame) = ROUND_1_VOTING
   \<and> round' (startVotingPhase True demoVotedGame) = round' demoVotedGame
   \<and> map_option voted (getPlayer (startVotingPhase True demoVotedGame) ''i2'') = Some False
   \<and> map_option voteTarget (getPlayer (startVotingPhase True demoVotedGame) ''i2'') = Some None"
  by (simp add: demoVotedGame_def demo_defs castVote_def isVotingPhase_def lowerChar_def
        startVotingPhase_def lobbyAvailable_def truthyStr_def getPlayer_def)


section \<open>Session invariant\<close>

text \<open>
  Every session the operations can reach from the initial one has a well-formed roster in
  which each recorded vote names a roster entry, and has no recorded vote while it is
  still in the lobby.
\<close>

lemma keys_of_ids:
  assumes "map (\<lambda>e. (fst e, inboxId (snd e))) ps' = map (\<lambda>e. (fst e, inboxId (snd e))) ps"
  shows "map fst ps' = map fst ps"
proof -
  have "map fst (map (\<lambda>e. (fst e, inboxId (snd e))) ps')
          = map fst (map (\<lambda>e. (fst e, inboxId (snd e))) ps)"
    using assms by simp
  then show ?thesis by (simp add: comp_def)
qed

lemma perform_keys:
  assumes "perform cfg env op g = Inr g'"
  shows "(\<exists>agent k name now groupAdd. op = AddPlayer agent k name now groupAdd) \<or> op = Cleanup
       \<or> map fst (players g') = map fst (players g)"
proof (cases op)
  case (CreateLobby o1 o2 t1 t2)
  then have "players g' = players g"
    using assms by (auto simp: createLobby_def split: if_splits)
  then show ?thesis by simp
next
  case (AddPlayer agent k name now groupAdd)
  then show ?thesis by simp
next
  case (AssignRoles now rnd)
  then obtain i x where pl: "players g' = map (\<lambda>(k, p). if inboxId p \<noteq> x
                                       then (k, p\<lparr> role := Some CREW \<rparr>) else (k, p))
                                     (mutateAt i (\<lambda>p. p\<lparr> role := Some IMPOSTOR \<rparr>) (players g))"
    using assms by (auto simp: assignRoles_def Let_def split: if_splits)
  define ps1 where "ps1 = mutateAt i (\<lambda>p. p\<lparr> role := Some IMPOSTOR \<rparr>) (players g)"
  have a: "map (\<lambda>e. (fst e, inboxId (snd e)))
             (map (\<lambda>(k, p). if inboxId p \<noteq> x then (k, p\<lparr> role := Some CREW \<rparr>) else (k, p)) ps1)
           = map (\<lambda>e. (fst e, inboxId (snd e))) ps1"
    by (rule ids_map_if) simp
  have b: "map (\<lambda>e. (fst e, inboxId (snd e))) ps1
           = map (\<lambda>e. (fst e, inboxId (snd e))) (players g)"
    unfolding ps1_def by (rule ids_mutateAt) simp
  have "map (\<lambda>e. (fst e, inboxId (snd e))) (players g')
               = map (\<lambda>e. (fst e, inboxId (snd e))) (players g)"
    using a b unfolding pl ps1_def by (rule trans)
  then show ?thesis
    using keys_of_ids by blast
next
  case (StartRound r)
  then have "players g' = map (\<lambda>(k, p). if isAlive p then (k, resetForRound p) else (k, p)) (players g)"
    using assms by (auto simp: startRound_def split: if_splits)
  then have "map (\<lambda>e. (fst e, inboxId (snd e))) (players g')
               = map (\<lambda>e. (fst e, inboxId (snd e))) (players g)"
    using ids_map_if [of resetForRound isAlive "players g"] by (simp add: resetForRound_def)
  then show ?thesis
    using keys_of_ids by blast
next
  case (CompleteTask k answer)
  have "map (\<lambda>e. (fst e, inboxId (snd e))) (players (fst (completeTask (validateTaskAnswer env) g k answer)))
               = map (\<lambda>e. (fst e, inboxId (snd e))) (players g)"
    by (auto simp: completeTask_def ids_map_entry split: option.splits)
  then show ?thesis
    using assms CompleteTask keys_of_ids by auto
next
  case (AttemptKill a tgt now rnd members)
  have "map (\<lambda>e. (fst e, inboxId (snd e))) (players (fst (attemptKill g a tgt now rnd members)))
               = map (\<lambda>e. (fst e, inboxId (snd e))) (players g)"
    by (auto simp: attemptKill_def Let_def ids_map_entry ids_mutateAt split: option.splits)
  then show ?thesis
    using assms AttemptKill keys_of_ids by auto
next
  case (CastVote k tgt)
  have "map (\<lambda>e. (fst e, inboxId (snd e))) (players (fst (castVote g k tgt)))
               = map (\<lambda>e. (fst e, inboxId (snd e))) (players g)"
    by (auto simp: castVote_def ids_map_entry split: option.splits)
  then show ?thesis
    using assms CastVote keys_of_ids by auto
next
  case (EliminatePlayer k)
  have "map (\<lambda>e. (fst e, inboxId (snd e))) (players (eliminatePlayer g k))
               = map (\<lambda>e. (fst e, inboxId (snd e))) (players g)"
    by (auto simp: eliminatePlayer_def ids_map_entry split: option.splits)
  then show ?thesis
    using assms EliminatePlayer keys_of_ids by auto
next
  case AdvancePhase
  then have adv: "advancePhase (generateTask env) g = Inr g'"
    using assms by simp
  from advancePhase_cases [OF adv] show ?thesis
  proof
    assume "players g' = players g"
    then show ?thesis by simp
  next
    assume "(state g = ROUND_1_VOTING \<or> state g = ROUND_2_VOTING)
              \<and> (\<exists>r. startRound (generateTask env) g r = Inr g')"
    then obtain r where "startRound (generateTask env) g r = Inr g'" by blast
    then have "players g' = map (\<lambda>(k, p). if isAlive p then (k, resetForRound p) else (k, p)) (players g)"
      by (auto simp: startRound_def split: if_splits)
    then have "map (\<lambda>e. (fst e, inboxId (snd e))) (players g')
               = map (\<lambda>e. (fst e, inboxId (snd e))) (players g)"
      using ids_map_if [of resetForRound isAlive "players g"] by (simp add: resetForRound_def)
    then show ?thesis
      using keys_of_ids by blast
  qed
next
  case Cleanup
  then show ?thesis by simp
next
  case (VoteIntent k actionId isDM)
  have "map (\<lambda>e. (fst e, inboxId (snd e))) (players (fst (handleVoteIntent g k actionId isDM)))
               = map (\<lambda>e. (fst e, inboxId (snd e))) (players g)"
    by (auto simp: handleVoteIntent_def Let_def ids_map_entry split: option.splits)
  then show ?thesis
    using assms VoteIntent keys_of_ids by auto
next
  case (StartVotingPhase gf)
  have "map (\<lambda>e. (fst e, inboxId (snd e))) (players (startVotingPhase gf g))
               = map (\<lambda>e. (fst e, inboxId (snd e))) (players g)"
    using ids_map_if [of "\<lambda>p. p\<lparr> voted := False, voteTarget := None \<rparr>" isAlive "players g"]
    by (simp add: startVotingPhase_def)
  then show ?thesis
    using assms StartVotingPhase keys_of_ids by auto
qed

lemma castVote_voteTarget:
  assumes "wellFormedRoster (players g)" and "map_of (players g) k = Some p"
    and "map_of (players (fst (castVote g v tgt))) k = Some p'"
  shows "voteTarget p' = voteTarget p
       \<or> (isVotingPhase (state g) \<and> (\<exists>t. voteTarget p' = Some t \<and> map_of (players g) t \<noteq> None))"
proof (cases "fst (castVote g v tgt) = g")
  case True
  then show ?thesis using assms by simp
next
  case False
  then obtain tg where voting: "isVotingPhase (state g)"
    and found: "List.find (\<lambda>p. toLowerCase (username p) = toLowerCase tgt) (map snd (players g)) = Some tg"
    and pl: "players (fst (castVote g v tgt))
               = AList.map_entry v (\<lambda>p. p\<lparr> voted := True, voteTarget := Some (inboxId tg) \<rparr>) (players g)"
    by (auto simp: castVote_def split: option.splits if_splits)
  from found have "tg \<in> set (map snd (players g))"
    by (auto simp: find_Some_iff)
  then obtain key where key: "(key, tg) \<in> set (players g)"
    by auto
  then have "inboxId tg = key"
    using assms(1) by (auto simp: wellFormedRoster_def list_all_iff)
  then have reg: "map_of (players g) (inboxId tg) \<noteq> None"
    using key by (metis map_of_eq_None_iff fst_conv image_eqI)
  have "p' = (if k = v then p\<lparr> voted := True, voteTarget := Some (inboxId tg) \<rparr> else p)"
    using assms(2,3) unfolding pl by (auto simp: map_of_map_entry)
  then show ?thesis
    using voting reg by auto
qed

lemma handleVoteIntent_voteTarget:
  assumes "map_of (players g) k = Some p"
    and "map_of (players (fst (handleVoteIntent g v actionId isDM))) k = Some p'"
  shows "voteTarget p' = voteTarget p
       \<or> (isVotingPhase (state g) \<and> (\<exists>t. voteTarget p' = Some t \<and> map_of (players g) t \<noteq> None))"
  using assms
  by (auto simp: handleVoteIntent_def getPlayer_def Let_def map_of_map_entry
           split: option.splits if_splits)

lemma perform_voteTarget:
  assumes "wellFormedRoster (players g)" and "perform cfg env op g = Inr g'"
    and "map_of (players g) k = Some p" and "map_of (players g') k = Some p'"
  shows "voteTarget p' = voteTarget p \<or> voteTarget p' = None
       \<or> (isVotingPhase (state g) \<and> (\<exists>t. voteTarget p' = Some t \<and> map_of (players g) t \<noteq> None))"
proof (cases op)
  case (CreateLobby o1 o2 t1 t2)
  then have "players g' = players g"
    using assms(2) by (auto simp: createLobby_def split: if_splits)
  then show ?thesis using assms by simp
next
  case (AddPlayer agent k0 name now groupAdd)
  then show ?thesis
    using assms addPlayer_player [of g k p agent k0 name now groupAdd p'] by auto
next
  case (AssignRoles now rnd)
  then obtain r where "p' = p\<lparr> role := r \<rparr>"
    using assms assignRoles_player [of cfg g now rnd g' k p p'] by auto
  then show ?thesis by simp
next
  case (StartRound r)
  then have "map_of (players g') k = Some (if isAlive p then resetForRound p else p)"
    using assms startRound_player [of "generateTask env" g r g' k p] by simp
  then show ?thesis
    using assms(4) by (auto simp: resetForRound_def split: if_splits)
next
  case (CompleteTask k0 answer)
  then show ?thesis
    using assms completeTask_player [of g k p "validateTaskAnswer env" k0 answer p'] by auto
next
  case (AttemptKill a tgt now rnd members)
  then show ?thesis
    using assms attemptKill_player [of g k p a tgt now rnd members p'] by auto
next
  case (CastVote v tgt)
  then show ?thesis
    using assms castVote_voteTarget [of g k p v tgt p'] by auto
next
  case (EliminatePlayer k0)
  then show ?thesis
    using assms eliminatePlayer_player [of g k p k0 p'] by auto
next
  case AdvancePhase
  then have adv: "advancePhase (generateTask env) g = Inr g'"
    using assms(2) by simp
  from advancePhase_cases [OF adv] show ?thesis
  proof
    assume "players g' = players g"
    then show ?thesis using assms by simp
  next
    assume "(state g = ROUND_1_VOTING \<or> state g = ROUND_2_VOTING)
              \<and> (\<exists>r. startRound (generateTask env) g r = Inr g')"
    then obtain r where "startRound (generateTask env) g r = Inr g'" by blast
    then have "map_of (players g') k = Some (if isAlive p then resetForRound p else p)"
      using assms(3) by (rule startRound_player)
    then show ?thesis
      using assms(4) by (auto simp: resetForRound_def split: if_splits)
  qed
next
  case Cleanup
  then have "players g' = []"
    using assms(2) by (auto simp: cleanup_def initialGame_def)
  then show ?thesis using assms(4) by simp
next
  case (VoteIntent v actionId isDM)
  then show ?thesis
    using assms handleVoteIntent_voteTarget [of g k p v actionId isDM p'] by auto
next
  case (StartVotingPhase gf)
  then have "map_of (players g') k
           = Some (if lobbyAvailable g gf \<and> isAlive p
                   then p\<lparr> voted := False, voteTarget := None \<rparr> else p)"
    using assms startVotingPhase_player [of g k p gf] by auto
  then show ?thesis
    using assms(4) by (auto split: if_splits)
qed

lemma perform_lobby_state:
  assumes "perform cfg env op g = Inr g'" and "inLobby (state g')"
  shows "op = Cleanup \<or> inLobby (state g)"
proof (cases op)
  case (CreateLobby o1 o2 t1 t2)
  then show ?thesis
    using assms by (auto simp: createLobby_def inLobby_def split: if_splits)
next
  case (AddPlayer agent k name now groupAdd)
  then show ?thesis
    using assms by (auto simp: addPlayer_def inLobby_def Let_def split: if_splits)
next
  case (AssignRoles now rnd)
  then show ?thesis
    using assms by (auto simp: assignRoles_def inLobby_def Let_def split: if_splits)
next
  case (StartRound r)
  then show ?thesis
    using assms
    by (auto simp: startRound_def inLobby_def getStateForRoundPhase_def MAX_ROUNDS_def
             split: if_splits)
next
  case (CompleteTask k answer)
  then show ?thesis
    using assms by (auto simp: completeTask_def split: option.splits if_splits)
next
  case (AttemptKill a tgt now rnd members)
  then show ?thesis
    using assms by (auto simp: attemptKill_def Let_def split: option.splits if_splits)
next
  case (CastVote k tgt)
  then show ?thesis
    using assms by (auto simp: castVote_def split: option.splits if_splits)
next
  case (EliminatePlayer k)
  then show ?thesis
    using assms by (auto simp: eliminatePlayer_def split: option.splits)
next
  case AdvancePhase
  then show ?thesis
    using assms
    by (cases "state g")
       (auto simp: advancePhase_def startRound_def inLobby_def getStateForRoundPhase_def
          MAX_ROUNDS_def)
next
  case Cleanup
  then show ?thesis by simp
next
  case (VoteIntent k actionId isDM)
  then show ?thesis
    using assms
    by (auto simp: handleVoteIntent_def getPlayer_def Let_def split: option.splits if_splits)
next
  case (StartVotingPhase gf)
  then show ?thesis
    using assms by (auto simp: startVotingPhase_def split: if_splits)
qed

lemma addPlayer_noVotes:
  assumes "inLobby (state g) \<longrightarrow> noVotes (players g)"
    and "fst (addPlayer agent g k name now groupAdd) \<noteq> g"
  shows "noVotes (players (fst (addPlayer agent g k name now groupAdd)))"
proof -
  have lobby: "inLobby (state g)"
    using assms(2) by (auto simp: addPlayer_def inLobby_def Let_def split: if_splits)
  then have nv: "noVotes (players g)"
    using assms(1) by simp
  define kept where "kept = (case (if length (players g) \<ge> MAX_PLAYERS
                                       then lastNonAgent agent (players g) (length (players g))
                                       else None) of
                                 None \<Rightarrow> players g
                               | Some e \<Rightarrow> AList.delete (fst e) (players g))"
  have pl: "players (fst (addPlayer agent g k name now groupAdd))
              = AList.update k (newPlayer k name) kept"
    using assms(2) unfolding kept_def by (auto simp: addPlayer_def Let_def split: if_splits)
  have "set kept \<subseteq> set (players g)"
    unfolding kept_def by (auto simp: AList.delete_eq split: option.splits)
  moreover have "set (AList.update k (newPlayer k name) kept)
                   \<subseteq> insert (k, newPlayer k name) (set kept)"
    by (induction kept) auto
  ultimately have "set (AList.update k (newPlayer k name) kept)
                     \<subseteq> insert (k, newPlayer k name) (set (players g))"
    by blast
  moreover have "voteTarget (newPlayer k name) = None"
    by (simp add: newPlayer_def)
  ultimately show ?thesis
    using nv unfolding pl noVotes_def list_all_iff by fastforce
qed

lemma noVotes_votesInRoster: "noVotes (players g) \<Longrightarrow> votesInRoster g"
  by (auto simp: noVotes_def votesInRoster_def list_all_iff)

lemma voting_not_lobby: "isVotingPhase s \<Longrightarrow> \<not> inLobby s"
  by (auto simp: isVotingPhase_def inLobby_def)

lemma initialGame_sessionInvariant: "sessionInvariant (initialGame cfg)"
  by (simp add: sessionInvariant_def initialGame_def wellFormedRoster_def votesInRoster_def
        noVotes_def)

lemma perform_sessionInvariant:
  assumes inv: "sessionInvariant g" and step: "perform cfg env op g = Inr g'"
  shows "sessionInvariant g'"
proof -
  have wf: "wellFormedRoster (players g)" and reg: "votesInRoster g"
    and quiet: "inLobby (state g) \<longrightarrow> noVotes (players g)"
    using inv by (simp_all add: sessionInvariant_def)
  have wf': "wellFormedRoster (players g')"
    using wf step by (rule perform_wellFormed)
  consider (cleanup) "op = Cleanup"
    | (add) agent k name now groupAdd where "op = AddPlayer agent k name now groupAdd"
    | (keys) "op \<noteq> Cleanup" and "map fst (players g') = map fst (players g)"
    using perform_keys [OF step] by blast
  then show ?thesis
  proof cases
    case cleanup
    then have "g' = initialGame cfg"
      using step by (simp add: cleanup_def)
    then show ?thesis by (simp add: initialGame_sessionInvariant)
  next
    case add
    then have g': "g' = fst (addPlayer agent g k name now groupAdd)"
      using step by simp
    show ?thesis
    proof (cases "g' = g")
      case True
      then show ?thesis using inv by simp
    next
      case False
      then have "noVotes (players g')"
        using addPlayer_noVotes [OF quiet, of agent k name now groupAdd] g' by simp
      then show ?thesis
        using wf' noVotes_votesInRoster by (simp add: sessionInvariant_def)
    qed
  next
    case keys
    have dist: "distinct (map fst (players g))" and dist': "distinct (map fst (players g'))"
      using wf wf' by (simp_all add: wellFormedRoster_def)
    have dom: "map_of (players g') t \<noteq> None \<longleftrightarrow> map_of (players g) t \<noteq> None" for t
      using keys(2) by (metis map_of_eq_None_iff set_map)
    have entry: "voteTarget p' = None
              \<or> (\<exists>t. voteTarget p' = Some t \<and> map_of (players g) t \<noteq> None \<and> \<not> inLobby (state g))"
      if "(k, p') \<in> set (players g')" for k p'
    proof -
      have new: "map_of (players g') k = Some p'"
        using that dist' by simp
      then have "map_of (players g) k \<noteq> None"
        using dom [of k] by simp
      then obtain p where old: "map_of (players g) k = Some p" by blast
      then have mem: "(k, p) \<in> set (players g)"
        by (rule map_of_SomeD)
      have mine: "voteTarget p = None
              \<or> (\<exists>t. voteTarget p = Some t \<and> map_of (players g) t \<noteq> None \<and> \<not> inLobby (state g))"
      proof (cases "voteTarget p")
        case None
        then show ?thesis by simp
      next
        case (Some t)
        then have "map_of (players g) t \<noteq> None"
          using reg mem by (auto simp: votesInRoster_def list_all_iff)
        moreover have "\<not> inLobby (state g)"
          using quiet mem Some by (auto simp: noVotes_def list_all_iff)
        ultimately show ?thesis using Some by simp
      qed
      from perform_voteTarget [OF wf step old new] mine show ?thesis
        using voting_not_lobby by auto
    qed
    have reg': "votesInRoster g'"
      unfolding votesInRoster_def list_all_iff
    proof
      fix e assume "e \<in> set (players g')"
      then have "(fst e, snd e) \<in> set (players g')" by simp
      from entry [OF this] show "case voteTarget (snd e) of None \<Rightarrow> True
                                 | Some t \<Rightarrow> map_of (players g') t \<noteq> None"
        using dom by (auto split: option.splits)
    qed
    have quiet': "noVotes (players g')" if lobby: "inLobby (state g')"
    proof -
      have "inLobby (state g)"
        using perform_lobby_state [OF step lobby] keys(1) by simp
      then show ?thesis
        unfolding noVotes_def list_all_iff using entry by (metis prod.collapse)
    qed
    show ?thesis
      using wf' reg' quiet' by (simp add: sessionInvariant_def)
  qed
qed

section \<open>Elimination by vote\<close>









end
